theory Spec2Isabelle
  imports Complex_Main "HOL-Library.Monad_Syntax"
begin

section \<open>Numbers\<close>

text \<open>
  The simulations compute on JavaScript numbers, IEEE 754 doubles. Where a claim is about
  the order of computed values, the operations are modelled with their rounding (next
  section). Elsewhere numbers are exact reals; a division whose divisor is zero leaves
  the reals in JavaScript (the quotient is an infinity or NaN), and is the value \<open>None\<close>
  here, so that a result \<open>Some v\<close> says that no division by zero happened on the way.
\<close>

definition fdiv :: "real \<Rightarrow> real \<Rightarrow> real option" where
  "fdiv x y = (if y = 0 then None else Some (x / y))"

section \<open>Double-precision arithmetic\<close>

text \<open>
  Where a claim is about the order of computed values (the Erlang recurrence, the
  multipath delays and amplitudes), the arithmetic is that of IEEE 754 binary64 with
  rounding to nearest, ties to even: the result of an operation is the exact result,
  rounded. \<open>roundEven\<close> is the nearest integer, \<open>round53\<close> the nearest number with a
  significand of 53 bits and any exponent.
\<close>

definition roundEven :: "real \<Rightarrow> int" where
  "roundEven y =
     (let f = \<lfloor>y\<rfloor>; r = y - of_int f
      in if r < 1 / 2 then f
         else if 1 / 2 < r then f + 1
         else if even f then f else f + 1)"

definition round53 :: "real \<Rightarrow> real" where
  "round53 x =
     (if x = 0 then 0
      else (let e = \<lfloor>log 2 \<bar>x\<bar>\<rfloor> - 52
            in of_int (roundEven (x / 2 powr of_int e)) * 2 powr of_int e))"

text \<open>
  \<open>fl x\<close> is the double that an operation with the exact result \<open>x\<close> returns, when
  that is zero or a normal number: \<open>2 ^ -1022 \<le> |x|\<close> and the rounded value is below
  \<open>2 ^ 1024\<close>. Outside (a subnormal result, an overflow to infinity) it is \<open>None\<close>, as
  is a division by zero and the square root of a negative number.
\<close>

definition fl :: "real \<Rightarrow> real option" where
  "fl x =
     (if x = 0 then Some 0
      else if 2 powr (- 1022) \<le> \<bar>x\<bar> \<and> \<bar>round53 x\<bar> < 2 powr 1024 then Some (round53 x)
      else None)"

definition fadd :: "real \<Rightarrow> real \<Rightarrow> real option" where
  "fadd a b = fl (a + b)"

definition fsub :: "real \<Rightarrow> real \<Rightarrow> real option" where
  "fsub a b = fl (a - b)"

definition fmul :: "real \<Rightarrow> real \<Rightarrow> real option" where
  "fmul a b = fl (a * b)"

definition fdivide :: "real \<Rightarrow> real \<Rightarrow> real option" where
  "fdivide a b = (if b = 0 then None else fl (a / b))"

definition fsqrt :: "real \<Rightarrow> real option" where
  "fsqrt a = (if a < 0 then None else fl (sqrt a))"

text \<open>The double with the significand \<open>m\<close> and the exponent \<open>- k\<close>, to write down the
  values that the operations return.\<close>

definition dbl :: "int \<Rightarrow> nat \<Rightarrow> real" where
  "dbl m k = of_int m / 2 ^ k"

text \<open>
  A positive magnitude between \<open>2 ^ -n\<close> and \<open>2 ^ n\<close>; an operation whose exact result
  is in such a band, with \<open>n \<le> 1021\<close>, returns a normal double.
\<close>

definition band :: "nat \<Rightarrow> real \<Rightarrow> bool" where
  "band n x \<longleftrightarrow> 1 / 2 ^ n \<le> x \<and> x \<le> 2 ^ n"

text \<open>The unit roundoff \<open>2 ^ -53\<close>.\<close>

definition uround :: real where
  "uround = 1 / 2 ^ 53"

section \<open>Erlang traffic model (utils/math.ts)\<close>

text \<open>The loop body \<^verbatim>\<open>b = (a * b) / (i + a * b)\<close>, in double arithmetic.\<close>

definition erlangStep :: "int \<Rightarrow> real \<Rightarrow> real \<Rightarrow> real option" where
  "erlangStep i a b =
     (case fmul a b of
        None \<Rightarrow> None
      | Some t \<Rightarrow>
         (case fadd (of_int i) t of
            None \<Rightarrow> None
          | Some s \<Rightarrow> fdivide t s))"

text \<open>
  \<^verbatim>\<open>for (let i = 1; i <= c; i++) { b = (a * b) / (i + a * b); }\<close> with the loop
  counter \<open>i\<close> and the running value \<open>b\<close> as arguments. The counter is a double: it is
  exact up to \<open>2 ^ 53\<close>, where \<open>i++\<close> no longer changes it and the loop does not end.
  The result is \<open>None\<close> when the loop does not return a number that is zero or normal.
\<close>

function erlangLoop :: "int \<Rightarrow> real \<Rightarrow> int \<Rightarrow> real \<Rightarrow> real option" where
  "erlangLoop c a i b =
     (if i \<le> c
      then (if 2 ^ 53 \<le> i then None
            else (case erlangStep i a b of
                    None \<Rightarrow> None
                  | Some b' \<Rightarrow> erlangLoop c a (i + 1) b'))
      else Some b)"
  by pat_completeness auto
termination
  by (relation "measure (\<lambda>(c, a, i, b). nat (c + 1 - i))") auto

declare erlangLoop.simps [simp del]

definition calculateErlangB :: "int \<Rightarrow> real \<Rightarrow> real option" where
  "calculateErlangB c a = (if a = 0 then Some 0 else erlangLoop c a 1 1)"

text \<open>The recurrence of the doc comment in exact arithmetic, \<open>B(0, A) = 1\<close> and
  \<open>B(c, A) = A B(c-1, A) / (c + A B(c-1, A))\<close>, which the loop evaluates in doubles.\<close>

fun erlangRec :: "nat \<Rightarrow> real \<Rightarrow> real" where
  "erlangRec 0 a = 1"
| "erlangRec (Suc n) a = (a * erlangRec n a) / (real (Suc n) + a * erlangRec n a)"




section \<open>Doppler kinematics (DopplerSimulator.tsx)\<close>

text \<open>\<^verbatim>\<open>Math.acos\<close> is NaN outside \<open>[-1, 1]\<close>.\<close>

definition facos :: "real \<Rightarrow> real option" where
  "facos x = (if - 1 \<le> x \<and> x \<le> 1 then Some (arccos x) else None)"

definition C_light :: real where "C_light = 300000000"
definition CANVAS_WIDTH :: real where "CANVAS_WIDTH = 800"
definition ROAD_Y :: real where "ROAD_Y = 320"
definition TOWER_X :: real where "TOWER_X = CANVAS_WIDTH / 2"
definition TOWER_Y :: real where "TOWER_Y = 60"

record physics =
  v_ms :: real
  lambda :: real
  thetaDeg :: real
  deltaF :: real
  distance :: real
  cosTheta :: real

definition calculatePhysics :: "real \<Rightarrow> real \<Rightarrow> real \<Rightarrow> physics option" where
  "calculatePhysics carX vKmH fGHz =
     (let v = vKmH * (5 / 18);
          f_Hz = fGHz * 1000000000
      in case fdiv C_light f_Hz of None \<Rightarrow> None | Some lam \<Rightarrow>
      (let dx = TOWER_X - carX;
           dy = TOWER_Y - ROAD_Y;
           d = sqrt (dx * dx + dy * dy)
       in case fdiv dx d of None \<Rightarrow> None | Some ct \<Rightarrow>
          (case facos ct of None \<Rightarrow> None | Some thetaRad \<Rightarrow>
          (let thDeg = thetaRad * (180 / pi)
           in case fdiv v lam of None \<Rightarrow> None | Some q \<Rightarrow>
              Some \<lparr> v_ms = v, lambda = lam, thetaDeg = thDeg, deltaF = q * ct,
                     distance = d, cosTheta = ct \<rparr>))))"

section \<open>Path loss and handoff (PropagationSimulator.tsx)\<close>

datatype environment = urban | highway

datatype handoffMode = threshold | hysteresis

definition P_TX :: real where "P_TX = 30"
definition P_MIN :: real where "P_MIN = - 90"

definition TOTAL_DIST :: "environment \<Rightarrow> real" where
  "TOTAL_DIST env = (if env = urban then 1000 else 10000)"

definition gamma :: "environment \<Rightarrow> real" where
  "gamma env = (if env = urban then 4 else 3)"

text \<open>
  \<open>calculateSignal(d, env, noiseScale)\<close>; the argument \<open>rnd\<close> is the value that
  \<^verbatim>\<open>Math.random()\<close> returns, read only when \<open>noiseScale > 0\<close>.
\<close>

definition calculateSignal :: "real \<Rightarrow> environment \<Rightarrow> real \<Rightarrow> real \<Rightarrow> real" where
  "calculateSignal d env noiseScale rnd =
     (let currentGamma = (if env = urban then 4 else 3);
          dist = max d 1;
          baseSignal = P_TX - 10 * currentGamma * log 10 dist
      in if noiseScale > 0
         then baseSignal + (rnd * noiseScale - noiseScale / 2)
         else baseSignal)"

definition theoreticalHOPoint :: "handoffMode \<Rightarrow> environment \<Rightarrow> real \<Rightarrow> real \<Rightarrow> real" where
  "theoreticalHOPoint handoffMode env thresholdMargin hysteresisMargin =
     (if handoffMode = hysteresis
      then (let factor = 10 powr (hysteresisMargin / (10 * gamma env))
            in (TOTAL_DIST env * factor) / (1 + factor))
      else 10 powr ((P_TX - P_MIN - thresholdMargin) / (10 * gamma env)))"

datatype servingBS = BS1 | BS2

record handoffEvent =
  pos :: real
  type :: string

record handoffParams =
  ueSpeed :: real
  handoffMode :: handoffMode
  thresholdMargin :: real
  hysteresisMargin :: real
  environment :: environment

record handoffState =
  uePosition :: real
  isMoving :: bool
  activeBS :: servingBS
  handoffEvents :: "handoffEvent list"
  isPingPonging :: bool
  handoffInLastTick :: bool

text \<open>The handoff rule of one tick: the new serving cell, if the rule fires.\<close>

definition handoffLogic :: "handoffParams \<Rightarrow> servingBS \<Rightarrow> real \<Rightarrow> real \<Rightarrow> servingBS option" where
  "handoffLogic p bs s1 s2 =
     (if handoffMode p = threshold
      then (if bs = BS1
            then (if s1 < P_MIN + thresholdMargin p then Some BS2 else None)
            else (if s2 < P_MIN + thresholdMargin p then Some BS1 else None))
      else (if bs = BS1
            then (if s2 > s1 + hysteresisMargin p then Some BS2 else None)
            else (if s1 > s2 + hysteresisMargin p then Some BS1 else None)))"

text \<open>
  The interval callback of the simulation loop, run while \<open>isMoving\<close>; \<open>r1\<close> and \<open>r2\<close>
  are the two \<^verbatim>\<open>Math.random()\<close> values of the two \<open>calculateSignal\<close> calls, in
  the order of the calls.
\<close>

definition handoffTick :: "handoffParams \<Rightarrow> handoffState \<Rightarrow> real \<Rightarrow> real \<Rightarrow> handoffState" where
  "handoffTick p s r1 r2 =
     (let prev = uePosition s;
          dt = 1;
          velocity = ueSpeed p / 3.6;
          step = velocity * dt;
          next = prev + step
      in if next \<ge> TOTAL_DIST (environment p)
         then s\<lparr> isMoving := False, uePosition := TOTAL_DIST (environment p) \<rparr>
         else
          (let s1 = calculateSignal next (environment p) 1.5 r1;
               s2 = calculateSignal (TOTAL_DIST (environment p) - next) (environment p) 1.5 r2;
               currentRSSI = (if activeBS s = BS1 then s1 else s2)
           in if currentRSSI < P_MIN
              then s\<lparr> isMoving := False,
                      handoffEvents := handoffEvents s @ [\<lparr> pos = next, type = ''drop'' \<rparr>],
                      isPingPonging := False \<rparr>
              else
               (case handoffLogic p (activeBS s) s1 s2 of
                  Some bs' \<Rightarrow>
                    s\<lparr> activeBS := bs',
                       handoffEvents := handoffEvents s @ [\<lparr> pos = next, type = ''handoff'' \<rparr>],
                       isPingPonging := (if handoffInLastTick s then True else isPingPonging s),
                       handoffInLastTick := True,
                       uePosition := next \<rparr>
                | None \<Rightarrow>
                    s\<lparr> isPingPonging := False,
                       handoffInLastTick := False,
                       uePosition := next \<rparr>)))"

text \<open>
  The value \<open>currentRSSI\<close> of a tick, the received power of the serving cell that the
  drop check compares with \<open>P_MIN\<close>. A tick that reaches the far boundary returns
  before it computes any signal: there is no such value then.
\<close>

definition currentRSSI :: "handoffParams \<Rightarrow> handoffState \<Rightarrow> real \<Rightarrow> real \<Rightarrow> real option" where
  "currentRSSI p s r1 r2 =
     (let next = uePosition s + ueSpeed p / 3.6 * 1
      in if next \<ge> TOTAL_DIST (environment p) then None
         else Some (if activeBS s = BS1
                    then calculateSignal next (environment p) 1.5 r1
                    else calculateSignal (TOTAL_DIST (environment p) - next) (environment p) 1.5 r2))"

text \<open>A state close to the far boundary in threshold mode, used for concrete runs below.\<close>

definition exampleParams :: handoffParams where
  "exampleParams = \<lparr> ueSpeed = 90, handoffMode = threshold, thresholdMargin = 0,
                       hysteresisMargin = 6, environment = highway \<rparr>"

definition exampleState :: handoffState where
  "exampleState = \<lparr> uePosition = 9950, isMoving = True, activeBS = BS1, handoffEvents = [],
                      isPingPonging = False, handoffInLastTick = False \<rparr>"

section \<open>Occupancy simulator (TrunkingSimulator.tsx)\<close>

text \<open>The interface \<open>Event\<close> with its fields \<open>id\<close>, \<open>type\<close> and \<open>time\<close>.\<close>

record Event =
  eventId :: int
  eventType :: string
  eventTime :: string

record trunkParams =
  channels :: int
  arrivalRate :: real
  serviceRate :: real

record trunkStats =
  totalCalls :: int
  droppedCalls :: int

record trunkState =
  currentBusy :: int
  events :: "Event list"
  stats :: trunkStats

text \<open>
  What one tick reads from its environment: the two \<^verbatim>\<open>Math.random()\<close> values, and
  the clock of the one event it may create (\<^verbatim>\<open>Date.now()\<close> and
  \<^verbatim>\<open>new Date().toLocaleTimeString()\<close>).
\<close>

record tickInput =
  randArrival :: real
  randDeparture :: real
  now :: int
  timeString :: string

text \<open>The arrival phase: the new busy count, the event and the statistics.\<close>

definition handleArrival :: "trunkParams \<Rightarrow> trunkState \<Rightarrow> tickInput \<Rightarrow> int \<times> Event option \<times> trunkStats" where
  "handleArrival p s inp =
     (let dt = 0.1;
          arrivalProb = arrivalRate p * dt
      in if randArrival inp < arrivalProb
         then (let st = (stats s)\<lparr> totalCalls := totalCalls (stats s) + 1 \<rparr>
               in if currentBusy s < channels p
                  then (currentBusy s + 1,
                        Some \<lparr> eventId = now inp, eventType = ''success'', eventTime = timeString inp \<rparr>, st)
                  else (currentBusy s,
                        Some \<lparr> eventId = now inp, eventType = ''drop'', eventTime = timeString inp \<rparr>,
                        st\<lparr> droppedCalls := droppedCalls st + 1 \<rparr>))
         else (currentBusy s, None, stats s))"

text \<open>The departure phase, on the busy count and the event of the arrival phase.\<close>

definition handleDeparture :: "trunkParams \<Rightarrow> trunkState \<Rightarrow> tickInput \<Rightarrow> int \<times> Event option \<Rightarrow> int \<times> Event option" where
  "handleDeparture p s inp be =
     (let dt = 0.1;
          departureProb = of_int (currentBusy s) * serviceRate p * dt;
          newBusy = fst be;
          newEvent = snd be
      in if randDeparture inp < departureProb \<and> newBusy > 0
         then (newBusy - 1,
               (case newEvent of
                  None \<Rightarrow> Some \<lparr> eventId = now inp + 1, eventType = ''end'', eventTime = timeString inp \<rparr>
                | Some e \<Rightarrow> Some e))
         else (newBusy, newEvent))"

definition trunkTick :: "trunkParams \<Rightarrow> trunkState \<Rightarrow> tickInput \<Rightarrow> trunkState" where
  "trunkTick p s inp =
     (case handleArrival p s inp of (busy1, ev1, st) \<Rightarrow>
      (case handleDeparture p s inp (busy1, ev1) of (newBusy, newEvent) \<Rightarrow>
         s\<lparr> currentBusy := newBusy,
            events := (case newEvent of
                         None \<Rightarrow> events s
                       | Some e \<Rightarrow> take 5 (e # events s)),
            stats := st \<rparr>))"

definition resetSim :: trunkState where
  "resetSim = \<lparr> currentBusy = 0, events = [], stats = \<lparr> totalCalls = 0, droppedCalls = 0 \<rparr> \<rparr>"

text \<open>The ticks of a run, one input per tick, from a given state.\<close>

fun trunkRun :: "trunkParams \<Rightarrow> trunkState \<Rightarrow> tickInput list \<Rightarrow> trunkState" where
  "trunkRun p s [] = s"
| "trunkRun p s (inp # inps) = trunkRun p (trunkTick p s inp) inps"

text \<open>A tick in which a call arrives and another one ends, used for a concrete run below.\<close>

definition busyParams :: trunkParams where
  "busyParams = \<lparr> channels = 10, arrivalRate = 5, serviceRate = 1 \<rparr>"

definition busyState :: trunkState where
  "busyState = \<lparr> currentBusy = 3, events = [],
                   stats = \<lparr> totalCalls = 7, droppedCalls = 0 \<rparr> \<rparr>"

definition busyInput :: tickInput where
  "busyInput = \<lparr> randArrival = 0.1, randDeparture = 0.1, now = 1000,
                   timeString = ''12:00:00'' \<rparr>"

section \<open>Multipath geometric channel (MultipathSimulator.tsx)\<close>

text \<open>The interfaces \<open>Point\<close> (fields \<open>x\<close>, \<open>y\<close>) and \<open>Building\<close> (\<open>Point\<close> with an \<open>id\<close>).\<close>

record Point =
  pt_x :: real
  pt_y :: real

record Building = Point +
  building_id :: int

text \<open>An entry of the path list, with its fields \<open>id\<close>, \<open>delay\<close>, \<open>amplitude\<close>, \<open>color\<close>.\<close>

record path =
  pathId :: string
  delay :: real
  amplitude :: real
  color :: string

text \<open>The constants \<open>TX_POS\<close>, \<open>ROAD_Y\<close>, \<open>C\<close>, \<open>GAMMA\<close> and \<open>REFLECTION_COEFF\<close> of
  the multipath component.\<close>

definition TX_POS :: Point where "TX_POS = \<lparr> pt_x = 100, pt_y = 100 \<rparr>"
definition ROAD_Y_mp :: real where "ROAD_Y_mp = 350"
definition C_scaled :: real where "C_scaled = 300"
definition GAMMA :: real where "GAMMA = 2"
definition REFLECTION_COEFF :: real where "REFLECTION_COEFF = 0.5"

definition rxPos :: "real \<Rightarrow> Point" where
  "rxPos rxX = \<lparr> pt_x = rxX, pt_y = ROAD_Y_mp \<rparr>"

text \<open>Decimal digits of a number, as the template literal \<^verbatim>\<open>`NLOS ${idx + 1}`\<close> prints them.\<close>

fun showNat :: "nat \<Rightarrow> string" where
  "showNat n =
     (if n < 10 then [''0123456789'' ! n]
      else showNat (n div 10) @ [''0123456789'' ! (n mod 10)])"

declare showNat.simps [simp del]

text \<open>
  \<open>Math.pow(x, y)\<close>. The component raises to the literal \<open>2\<close> and to \<open>GAMMA = 2.0\<close> only,
  and for the exponent 2 the \<open>pow\<close> of the engine returns the product \<open>x * x\<close>, rounded;
  another exponent is outside this model (\<open>None\<close>).
\<close>

definition fpow :: "real \<Rightarrow> real \<Rightarrow> real option" where
  "fpow x y = (if y = 2 then fmul x x else None)"

text \<open>
  The expression \<^verbatim>\<open>Math.sqrt(Math.pow(q.x - p.x, 2) + Math.pow(q.y - p.y, 2))\<close>, which the
  component evaluates for the three segments transmitter to receiver, transmitter to
  building and building to receiver; every operation rounds.
\<close>

definition segmentLength :: "'a Point_scheme \<Rightarrow> 'b Point_scheme \<Rightarrow> real option" where
  "segmentLength p q =
     do { dx \<leftarrow> fsub (pt_x q) (pt_x p);
          sx \<leftarrow> fpow dx 2;
          dy \<leftarrow> fsub (pt_y q) (pt_y p);
          sy \<leftarrow> fpow dy 2;
          s \<leftarrow> fadd sx sy;
          fsqrt s }"

text \<open>The path of the reflector \<open>b\<close> at index \<open>idx\<close>, the body of the \<open>forEach\<close>.\<close>

definition nlosPath :: "Point \<Rightarrow> nat \<Rightarrow> 'a Building_scheme \<Rightarrow> path option" where
  "nlosPath rx idx b =
     do { d_tx_b \<leftarrow> segmentLength TX_POS b;
          d_b_rx \<leftarrow> segmentLength b rx;
          di \<leftarrow> fadd d_tx_b d_b_rx;
          taui \<leftarrow> fdivide di C_scaled;
          k \<leftarrow> fmul 1000 REFLECTION_COEFF;
          p \<leftarrow> fpow di GAMMA;
          ai \<leftarrow> fdivide k p;
          Some \<lparr> pathId = ''NLOS '' @ showNat (idx + 1), delay = taui, amplitude = ai,
                 color = ''#f43f5e'' \<rparr> }"

text \<open>
  \<open>multipathData\<close>: the LOS path, then one path per building, sorted by the comparator
  \<open>a.delay - b.delay\<close>; \<open>Array.prototype.sort\<close> is stable, as \<open>sort_key\<close> is. The result
  is \<open>None\<close> when an operation leaves the normal doubles (a division by zero for a
  receiver on the transmitter, an overflow, a subnormal result).
\<close>

definition multipathData :: "Point \<Rightarrow> 'a Building_scheme list \<Rightarrow> path list option" where
  "multipathData rx buildings =
     do { d0 \<leftarrow> segmentLength TX_POS rx;
          tau0 \<leftarrow> fdivide d0 C_scaled;
          p0 \<leftarrow> fpow d0 GAMMA;
          a0 \<leftarrow> fdivide 1000 p0;
          nlos \<leftarrow> those (map (\<lambda>(idx, b). nlosPath rx idx b) (enumerate 0 buildings));
          Some (sort_key delay
            (\<lparr> pathId = ''LOS'', delay = tau0, amplitude = a0, color = ''#10b981'' \<rparr> # nlos)) }"

text \<open>The exact lengths of the two kinds of path, the LOS segment and the two segments
  over a building, named to state properties of the result.\<close>

definition losLength :: "Point \<Rightarrow> real" where
  "losLength rx = sqrt ((pt_x rx - pt_x TX_POS)\<^sup>2 + (pt_y rx - pt_y TX_POS)\<^sup>2)"

definition nlosLength :: "Point \<Rightarrow> 'a Building_scheme \<Rightarrow> real" where
  "nlosLength rx b =
     sqrt ((pt_x b - pt_x TX_POS)\<^sup>2 + (pt_y b - pt_y TX_POS)\<^sup>2)
     + sqrt ((pt_x rx - pt_x b)\<^sup>2 + (pt_y rx - pt_y b)\<^sup>2)"

text \<open>
  The factor by which rounding can put the computed LOS delay above a computed NLOS
  delay: three roundings in each square root and one in the division on the LOS side,
  one more, for the sum of the two segments, on the NLOS side.
\<close>

definition delaySlack :: real where
  "delaySlack = (1 + uround) ^ 4 / (1 - uround) ^ 5"

text \<open>
  Scenes on which every operation of \<open>multipathData\<close> stays within the normal doubles:
  the receiver is not on the transmitter, and every coordinate difference that the
  component forms is zero or of a magnitude between \<open>2 ^ -400\<close> and \<open>2 ^ 400\<close>.
\<close>

definition normalGap :: "real \<Rightarrow> bool" where
  "normalGap x \<longleftrightarrow> x = 0 \<or> band 400 \<bar>x\<bar>"

definition regularScene :: "Point \<Rightarrow> 'a Building_scheme list \<Rightarrow> bool" where
  "regularScene rx buildings \<longleftrightarrow>
     (pt_x rx \<noteq> pt_x TX_POS \<or> pt_y rx \<noteq> pt_y TX_POS)
     \<and> normalGap (pt_x rx - pt_x TX_POS) \<and> normalGap (pt_y rx - pt_y TX_POS)
     \<and> list_all (\<lambda>b. normalGap (pt_x b - pt_x TX_POS) \<and> normalGap (pt_y b - pt_y TX_POS)
                   \<and> normalGap (pt_x rx - pt_x b) \<and> normalGap (pt_y rx - pt_y b)) buildings"

text \<open>The building at \<open>(105, 125)\<close>, close to the segment from the transmitter to the
  receiver at \<open>x = 150\<close>.\<close>

definition nearBuilding :: Building where
  "nearBuilding = \<lparr> pt_x = 105, pt_y = 125, building_id = 1 \<rparr>"

text \<open>The initial buildings of the component.\<close>

definition initialBuildings :: "Building list" where
  "initialBuildings =
     [\<lparr> pt_x = 300, pt_y = 200, building_id = 1 \<rparr>,
      \<lparr> pt_x = 500, pt_y = 150, building_id = 2 \<rparr>,
      \<lparr> pt_x = 650, pt_y = 250, building_id = 3 \<rparr>]"

text \<open>The path list of the receiver at \<open>x = 700\<close> with the initial buildings: the delays
  are about 2.1667, 2.1694, 2.2730 and 2.2865, the amplitudes about 0.002367, 0.001180,
  0.001075 and 0.001063.\<close>

definition initialPaths :: "path list" where
  "initialPaths =
     [\<lparr> pathId = ''LOS'', delay = dbl 4878899596318037 51,
        amplitude = dbl 5457616589854897 61, color = ''#10b981'' \<rparr>,
      \<lparr> pathId = ''NLOS 1'', delay = dbl 4884956825345871 51,
        amplitude = dbl 5444090354422907 62, color = ''#f43f5e'' \<rparr>,
      \<lparr> pathId = ''NLOS 3'', delay = dbl 5118274258864825 51,
        amplitude = dbl 4959063584031420 62, color = ''#f43f5e'' \<rparr>,
      \<lparr> pathId = ''NLOS 2'', delay = dbl 5148782306758777 51,
        amplitude = dbl 4900469874879851 62, color = ''#f43f5e'' \<rparr>]"


section \<open>Signal recovery pipeline (SignalRecoverySimulator.tsx)\<close>

text \<open>Exceptions of the run time (\<open>RangeError\<close>: \<open>new Array\<close> with an invalid length,
  an exhausted stack; \<open>TypeError\<close>: a method or operand that is not defined), and a value
  that is not a finite number.\<close>

datatype jsError = RangeError | TypeError | NotFinite

subsection \<open>Stage 1: transmitter\<close>

definition generateSignal :: "string \<Rightarrow> nat \<Rightarrow> real list" where
  "generateSignal inputBits samplesPerSymbol =
     (let bits = map (\<lambda>b. if b = CHR ''1'' then (1::nat) else 0) inputBits
      in concat (map (\<lambda>bit. replicate samplesPerSymbol (if bit = 1 then 1 else - 1)) bits)
         @ replicate (samplesPerSymbol * 2) 0)"

subsection \<open>Stage 2: channel\<close>

text \<open>A tap \<open>{ delay, amp }\<close>.\<close>

record tap =
  tap_delay :: int
  tap_amp :: real

text \<open>\<open>Math.max(...delays)\<close> on a non-empty list.\<close>

fun maxOf :: "int list \<Rightarrow> int" where
  "maxOf [] = 0"
| "maxOf [d] = d"
| "maxOf (d # ds) = max d (maxOf ds)"

definition addTap :: "real list \<Rightarrow> tap \<Rightarrow> real list" where
  "addTap h t =
     (if tap_delay t \<ge> 0 \<and> tap_delay t < int (length h)
      then h[nat (tap_delay t) := h ! nat (tap_delay t) + tap_amp t]
      else h)"

text \<open>
  With no tap \<open>Math.max()\<close> is \<open>-Infinity\<close>, and with a largest delay below \<open>-1\<close> the
  length \<open>maxDelay + 1\<close> is negative: \<open>new Array\<close> throws a \<open>RangeError\<close> in both cases.
\<close>

definition generateChannel :: "tap list \<Rightarrow> jsError + real list" where
  "generateChannel taps =
     (if taps = [] then Inl RangeError
      else (let maxDelay = maxOf (map tap_delay taps)
            in if maxDelay + 1 < 0 then Inl RangeError
               else Inr (foldl addTap (replicate (nat (maxDelay + 1)) 0) taps)))"

subsection \<open>Stage 3: convolution and noise\<close>

text \<open>The inner loop over \<open>j\<close> for the output sample \<open>i\<close>, from \<open>y[i] = 0\<close>.\<close>

definition convolveAt :: "real list \<Rightarrow> real list \<Rightarrow> nat \<Rightarrow> real" where
  "convolveAt x h i =
     foldl (\<lambda>acc j. if j \<le> i \<and> i - j < length x then acc + x ! (i - j) * h ! j else acc)
       0 [0..<length h]"

text \<open>
  The Box-Muller sample of two \<^verbatim>\<open>Math.random()\<close> values \<open>(u1, u2)\<close>.
  \<open>Math.log(u1)\<close> is \<open>-Infinity\<close> for \<open>u1 = 0\<close> and NaN below, and the square root is
  NaN for \<open>u1 > 1\<close>: the sample is a finite number exactly for \<open>0 < u1 \<le> 1\<close>.
  \<open>Math.random()\<close> returns a value in \<open>[0, 1)\<close>; it may return \<open>0\<close>.
\<close>

definition boxMuller :: "real \<times> real \<Rightarrow> real option" where
  "boxMuller u =
     (if 0 < fst u \<and> fst u \<le> 1
      then Some (sqrt (- 2 * ln (fst u)) * cos (2 * pi * snd u))
      else None)"

text \<open>
  \<open>convolveSignals\<close>: the pair \<open>(y, yNoisy)\<close>; \<open>draws i\<close> are the two random values
  \<open>(u1, u2)\<close> drawn for the sample \<open>i\<close>. A sample that is not finite makes
  \<open>val + z * noiseVariance\<close> infinite or NaN, also for \<open>noiseVariance = 0\<close>
  (\<open>Infinity * 0\<close> is NaN); the run is not followed beyond such a value, it ends as
  \<open>NotFinite\<close>.
\<close>

definition convolveSignals ::
  "real list \<Rightarrow> real list \<Rightarrow> real \<Rightarrow> (nat \<Rightarrow> real \<times> real) \<Rightarrow> jsError + real list \<times> real list" where
  "convolveSignals x h noiseVariance draws =
     (if length x + length h < 1 then Inl RangeError
      else (let yLen = length x + length h - 1;
                y = map (convolveAt x h) [0..<yLen]
            in case those (map (\<lambda>i. case boxMuller (draws i) of
                                        None \<Rightarrow> None
                                      | Some z \<Rightarrow> Some (y ! i + z * noiseVariance))
                               [0..<yLen]) of
                 None \<Rightarrow> Inl NotFinite
               | Some yNoisy \<Rightarrow> Inr (y, yNoisy)))"

subsection \<open>Stage 4: frequency domain\<close>

text \<open>
  \<open>math.fft\<close> and \<open>math.ifft\<close> of the mathjs library on complex values: the discrete
  Fourier transform \<open>X[k] = \<Sum>n. x[n] exp(-2\<pi>i k n / N)\<close> of a list of length \<open>N\<close>, and
  its inverse \<open>x[n] = (1/N) \<Sum>k. X[k] exp(2\<pi>i k n / N)\<close>.
\<close>

definition fft :: "complex list \<Rightarrow> complex list" where
  "fft xs =
     (let N = length xs
      in map (\<lambda>k. \<Sum>n<N. xs ! n * cis (- (2 * pi * real k * real n / real N))) [0..<N])"

definition ifft :: "complex list \<Rightarrow> complex list" where
  "ifft Xs =
     (let N = length Xs
      in map (\<lambda>n. (\<Sum>k<N. Xs ! k * cis (2 * pi * real k * real n / real N)) / of_nat N)
           [0..<N])"

definition epsilon :: real where "epsilon = 1 / 1000000"

text \<open>Complex division; a zero divisor gives components that are infinite or NaN.\<close>

definition cdiv :: "complex \<Rightarrow> complex \<Rightarrow> complex option" where
  "cdiv a b = (if b = 0 then None else Some (a / b))"

text \<open>The denominator and the equalizer value of one frequency bin \<open>H\<close> (the loop body
  of \<open>performFFT\<close>).\<close>

definition H_denom :: "complex \<Rightarrow> complex" where
  "H_denom H = (if cmod H < epsilon then Complex (Re H + epsilon) (Im H) else H)"

definition equalizerBin :: "complex \<Rightarrow> complex option" where
  "equalizerBin H = cdiv (Complex 1 0) (H_denom H)"

text \<open>\<open>hPadded\<close>: \<open>N\<close> zeros overwritten by \<open>signalH\<close> (a longer \<open>signalH\<close> extends
  the array).\<close>

definition hPadded :: "nat \<Rightarrow> real list \<Rightarrow> real list" where
  "hPadded N signalH = signalH @ replicate (N - length signalH) 0"

record spectra =
  complexY :: "complex list"
  complexH :: "complex list"
  complexE :: "complex list"

text \<open>
  \<open>performFFT\<close>. \<open>math.fft\<close> does not return for the empty array (its recursion has no
  base case for it and exhausts the stack, a \<open>RangeError\<close>), and returns an array of
  one number as it is, a plain number, on which \<open>toPolar\<close> is not defined (a
  \<open>TypeError\<close>); from length 2 on it returns the transform as complex numbers.
\<close>

definition performFFT :: "real list \<Rightarrow> real list \<Rightarrow> jsError + spectra" where
  "performFFT signalYNoisy signalH =
     (let N = length signalYNoisy
      in if N = 0 then Inl RangeError
         else if N = 1 then Inl TypeError
         else (let Y_complex = fft (map complex_of_real signalYNoisy);
                   H_complex = fft (map complex_of_real (hPadded N signalH))
               in case those (map (\<lambda>i. equalizerBin (H_complex ! i)) [0..<N]) of
                    None \<Rightarrow> Inl NotFinite
                  | Some E_complex \<Rightarrow>
                      Inr \<lparr> complexY = Y_complex, complexH = H_complex,
                             complexE = E_complex \<rparr>))"

subsection \<open>Stage 5: receiver\<close>

text \<open>The decoding loop: the sampling index of bit \<open>i\<close> is
  \<open>Math.floor(i * samplesPerSymbol + samplesPerSymbol / 2)\<close>.\<close>

definition decodeBits :: "real list \<Rightarrow> nat \<Rightarrow> nat \<Rightarrow> string" where
  "decodeBits x_recovered numBits samplesPerSymbol =
     concat (map (\<lambda>i. let idx = i * samplesPerSymbol + samplesPerSymbol div 2
                       in if idx < length x_recovered
                          then (if x_recovered ! idx > 0 then ''1'' else ''0'')
                          else [])
                 [0..<numBits])"

text \<open>\<open>performEqualization\<close>: the pair \<open>(recoveredSignal, recoveredBits)\<close>.
  \<open>math.ifft\<close> calls \<open>math.fft\<close>, which does not return for the empty array; a missing
  entry of \<open>complexE\<close> is \<open>undefined\<close>, and \<open>math.multiply\<close> throws on it.\<close>

definition performEqualization ::
  "spectra \<Rightarrow> string \<Rightarrow> nat \<Rightarrow> jsError + real list \<times> string" where
  "performEqualization sp inputBits samplesPerSymbol =
     (let N = length (complexY sp)
      in if length (complexE sp) < N then Inl TypeError
         else if N = 0 then Inl RangeError
         else (let X_est_complex = map (\<lambda>i. complexY sp ! i * complexE sp ! i) [0..<N];
                   x_recovered_complex = ifft X_est_complex;
                   x_recovered = map Re x_recovered_complex
               in Inr (x_recovered, decodeBits x_recovered (length inputBits) samplesPerSymbol)))"

subsection \<open>The five stages in sequence\<close>

definition recoveryPipeline ::
  "string \<Rightarrow> nat \<Rightarrow> tap list \<Rightarrow> real \<Rightarrow> (nat \<Rightarrow> real \<times> real) \<Rightarrow> jsError + string" where
  "recoveryPipeline inputBits samplesPerSymbol taps noiseVariance draws =
     (let signalX = generateSignal inputBits samplesPerSymbol
      in case generateChannel taps of
           Inl e \<Rightarrow> Inl e
         | Inr signalH \<Rightarrow>
            (case convolveSignals signalX signalH noiseVariance draws of
               Inl e \<Rightarrow> Inl e
             | Inr (signalY, signalYNoisy) \<Rightarrow>
                (case performFFT signalYNoisy signalH of
                   Inl e \<Rightarrow> Inl e
                 | Inr sp \<Rightarrow>
                    (case performEqualization sp inputBits samplesPerSymbol of
                       Inl e \<Rightarrow> Inl e
                     | Inr (recoveredSignal, recoveredBits) \<Rightarrow> Inr recoveredBits))))"

subsection \<open>Auxiliary definitions\<close>

text \<open>The spectrum of a list at bin \<open>k\<close> of a transform of length \<open>N\<close>.\<close>

definition spectrumAt :: "nat \<Rightarrow> real list \<Rightarrow> nat \<Rightarrow> complex" where
  "spectrumAt N xs k = (\<Sum>a<length xs. complex_of_real (xs ! a) * cis (- (2 * pi * real k * real a / real N)))"

text \<open>The default taps of the component, and a single weak negative tap.\<close>

definition defaultTaps :: "tap list" where
  "defaultTaps = [\<lparr> tap_delay = 0, tap_amp = 1.0 \<rparr>,
                  \<lparr> tap_delay = 5, tap_amp = 0.5 \<rparr>,
                  \<lparr> tap_delay = 12, tap_amp = - 0.3 \<rparr>]"

definition flipTaps :: "tap list" where
  "flipTaps = [\<lparr> tap_delay = 0, tap_amp = - 1 / 2000000 \<rparr>]"

section \<open>Double-precision arithmetic: rounding error and evaluation\<close>

lemma roundEven_near: "\<bar>of_int (roundEven y) - y\<bar> \<le> 1 / 2"
proof -
  have "of_int \<lfloor>y\<rfloor> \<le> y" "y < of_int \<lfloor>y\<rfloor> + 1" by linarith+
  then show ?thesis
    by (auto simp: roundEven_def Let_def)
qed

lemma roundEven_eqI:
  assumes "\<bar>y - of_int m\<bar> < 1 / 2"
  shows "roundEven y = m"
proof -
  have lo: "of_int m - 1 / 2 < y" and hi: "y < of_int m + 1 / 2" using assms by linarith+
  show ?thesis
  proof (cases "of_int m \<le> y")
    case True
    then have f: "\<lfloor>y\<rfloor> = m" using hi by (intro floor_unique) auto
    show ?thesis using hi by (simp add: roundEven_def f Let_def)
  next
    case False
    then have f: "\<lfloor>y\<rfloor> = m - 1" using lo by (intro floor_unique) auto
    show ?thesis using lo False by (simp add: roundEven_def f Let_def)
  qed
qed

lemma roundEven_tie:
  assumes "y = of_int m + 1 / 2"
  shows "roundEven y = (if even m then m else m + 1)"
proof -
  have f: "\<lfloor>y\<rfloor> = m" unfolding assms by (intro floor_unique) auto
  show ?thesis by (simp add: roundEven_def f Let_def assms)
qed

lemma round53_scale:
  assumes x: "x \<noteq> 0"
  defines "e \<equiv> \<lfloor>log 2 \<bar>x\<bar>\<rfloor> - 52"
  shows "2 ^ 52 \<le> \<bar>x\<bar> / 2 powr of_int e" and "\<bar>x\<bar> / 2 powr of_int e < 2 ^ 53"
proof -
  have ax: "0 < \<bar>x\<bar>" using x by simp
  have "\<lfloor>log 2 \<bar>x\<bar>\<rfloor> = e + 52" by (simp add: e_def)
  then have b: "2 powr of_int (e + 52) \<le> \<bar>x\<bar>" "\<bar>x\<bar> < 2 powr (of_int (e + 52) + 1)"
    using floor_log_eq_powr_iff [of "\<bar>x\<bar>" 2 "e + 52"] ax by auto
  have p1: "(2::real) powr of_int (e + 52) = 2 ^ 52 * 2 powr of_int e"
  proof -
    have "(of_int (e + 52) :: real) = 52 + of_int e" by simp
    then have "(2::real) powr of_int (e + 52) = 2 powr 52 * 2 powr of_int e"
      by (simp only: powr_add)
    then show ?thesis by simp
  qed
  have p2: "(2::real) powr (of_int (e + 52) + 1) = 2 ^ 53 * 2 powr of_int e"
  proof -
    have "(of_int (e + 52) + 1 :: real) = 53 + of_int e" by simp
    then have "(2::real) powr (of_int (e + 52) + 1) = 2 powr 53 * 2 powr of_int e"
      by (simp only: powr_add)
    then show ?thesis by simp
  qed
  have pos: "0 < (2::real) powr of_int e" by simp
  show "2 ^ 52 \<le> \<bar>x\<bar> / 2 powr of_int e"
    using b(1) pos unfolding p1 by (simp add: pos_le_divide_eq)
  show "\<bar>x\<bar> / 2 powr of_int e < 2 ^ 53"
    using b(2) pos unfolding p2 by (simp add: pos_divide_less_eq)
qed

lemma round53_error: "\<bar>round53 x - x\<bar> \<le> \<bar>x\<bar> * uround"
proof (cases "x = 0")
  case True
  then show ?thesis by (simp add: round53_def)
next
  case False
  define e where "e = \<lfloor>log 2 \<bar>x\<bar>\<rfloor> - 52"
  define s :: real where "s = 2 powr of_int e"
  define y where "y = x / s"
  have s: "0 < s" by (simp add: s_def)
  have y: "2 ^ 52 \<le> \<bar>y\<bar>"
    using round53_scale(1) [OF False] s by (simp add: y_def s_def e_def)
  have r: "round53 x = of_int (roundEven y) * s"
    using False by (simp add: round53_def Let_def y_def s_def e_def)
  have "round53 x - x = (of_int (roundEven y) - y) * s"
    using s by (simp add: r y_def algebra_simps)
  then have "\<bar>round53 x - x\<bar> = \<bar>of_int (roundEven y) - y\<bar> * s"
    using s by (simp add: abs_mult)
  also have "\<dots> \<le> 1 / 2 * s"
    using roundEven_near [of y] s by (intro mult_right_mono) auto
  also have "\<dots> \<le> (\<bar>y\<bar> * uround) * s"
  proof -
    have "1 / 2 \<le> \<bar>y\<bar> * uround" using y by (simp add: uround_def)
    then show ?thesis using s by (intro mult_right_mono) auto
  qed
  also have "\<dots> = \<bar>x\<bar> * uround"
    using s by (simp add: y_def abs_divide)
  finally show ?thesis .
qed

lemma fl_error:
  assumes "fl x = Some y"
  shows "\<bar>y - x\<bar> \<le> \<bar>x\<bar> * uround"
  using assms round53_error [of x] by (auto simp: fl_def split: if_splits)

lemma fl_pos_bounds:
  assumes "fl x = Some y" and "0 \<le> x"
  shows "x * (1 - uround) \<le> y" and "y \<le> x * (1 + uround)"
  using fl_error [OF assms(1)] assms(2) by (auto simp: abs_le_iff algebra_simps)

lemma uround_bounds: "0 < uround" "uround < 1"
  by (simp_all add: uround_def)

lemma fl_pos:
  assumes "fl x = Some y" and "0 < x"
  shows "0 < y"
proof -
  have "0 < x * (1 - uround)" using assms(2) uround_bounds by simp
  then show ?thesis using fl_pos_bounds(1) [OF assms(1)] assms(2) by linarith
qed


lemma round53_eval:
  fixes x :: real and k :: nat
  assumes lo: "2 ^ 52 \<le> x * 2 ^ k" and hi: "x * 2 ^ k < 2 ^ 53"
      and m: "roundEven (x * 2 ^ k) = m"
  shows "round53 x = of_int m / 2 ^ k"
proof -
  have x: "0 < x"
  proof (rule ccontr)
    assume "\<not> 0 < x"
    then have "x * 2 ^ k \<le> 0" by (simp add: mult_le_0_iff)
    then show False using lo by (smt (verit) zero_less_power)
  qed
  have p: "(2::real) powr of_int (52 - int k) = 2 ^ 52 / 2 ^ k"
  proof -
    have "(of_int (52 - int k) :: real) = 52 - real k" by simp
    then have "(2::real) powr of_int (52 - int k) = 2 powr 52 / 2 powr real k"
      by (simp only: powr_diff)
    then show ?thesis by (simp add: powr_realpow)
  qed
  have p': "(2::real) powr (of_int (52 - int k) + 1) = 2 ^ 53 / 2 ^ k"
  proof -
    have "(of_int (52 - int k) + 1 :: real) = 53 - real k" by simp
    then have "(2::real) powr (of_int (52 - int k) + 1) = 2 powr 53 / 2 powr real k"
      by (simp only: powr_diff)
    then show ?thesis by (simp add: powr_realpow)
  qed
  have "2 powr of_int (52 - int k) \<le> x" "x < 2 powr (of_int (52 - int k) + 1)"
    unfolding p p' using lo hi by (simp_all add: field_simps)
  then have "\<lfloor>log 2 x\<rfloor> = 52 - int k"
    using floor_log_eq_powr_iff [of x 2 "52 - int k"] x by simp
  then have e: "\<lfloor>log 2 \<bar>x\<bar>\<rfloor> - 52 = - int k" using x by simp
  have s: "(2::real) powr of_int (- int k) = 1 / 2 ^ k"
    by (simp add: powr_minus powr_realpow inverse_eq_divide)
  have "round53 x = of_int (roundEven (x / 2 powr of_int (- int k))) * 2 powr of_int (- int k)"
    using x unfolding round53_def Let_def e by simp
  also have "\<dots> = of_int (roundEven (x * 2 ^ k)) * (1 / 2 ^ k)"
    unfolding s by simp
  finally show ?thesis by (simp add: m)
qed

lemma pow52: "(2::real) ^ 52 = 4503599627370496" "(2::real) ^ 53 = 9007199254740992"
  "(2::int) ^ 52 = 4503599627370496" "(2::int) ^ 53 = 9007199254740992"
  by simp_all

lemma fl_eval:
  fixes x :: real and k :: nat
  assumes lo: "2 ^ 52 \<le> x * 2 ^ k" and hi: "x * 2 ^ k < 2 ^ 53"
      and m: "roundEven (x * 2 ^ k) = m" and k: "k \<le> 1000"
  shows "fl x = Some (of_int m / 2 ^ k)"
proof -
  have r: "round53 x = of_int m / 2 ^ k" using lo hi m by (rule round53_eval)
  have x: "0 < x"
  proof (rule ccontr)
    assume "\<not> 0 < x"
    then have "x * 2 ^ k \<le> 0" by (simp add: mult_le_0_iff)
    then show False using lo by (smt (verit) zero_less_power)
  qed
  have kk: "(2::real) ^ k \<le> 2 ^ 1000" using k by (intro power_increasing) auto
  have low: "2 powr (- 1022) \<le> \<bar>x\<bar>"
  proof -
    have "(2::real) powr (- 1022) = 1 / 2 ^ 1022" by (simp add: powr_minus inverse_eq_divide)
    also have "\<dots> \<le> 2 ^ 52 / 2 ^ 1000" by simp
    also have "\<dots> \<le> 2 ^ 52 / 2 ^ k" using kk by (intro divide_left_mono) auto
    also have "\<dots> \<le> x" using lo by (simp add: field_simps)
    finally show ?thesis using x by simp
  qed
  define Y where "Y = x * 2 ^ k"
  have mb: "\<bar>real_of_int m\<bar> \<le> 9007199254740993"
  proof -
    have "\<bar>real_of_int m - Y\<bar> \<le> 1 / 2"
      using roundEven_near [of "x * 2 ^ k"] unfolding m Y_def .
    moreover have "4503599627370496 \<le> Y" "Y < 9007199254740992"
      using lo hi unfolding Y_def pow52 by simp_all
    ultimately show ?thesis by linarith
  qed
  have high: "\<bar>round53 x\<bar> < 2 powr 1024"
  proof -
    have "\<bar>round53 x\<bar> = \<bar>real_of_int m\<bar> / 2 ^ k" by (simp add: r abs_divide)
    also have "\<dots> \<le> \<bar>real_of_int m\<bar> / 1"
      by (intro divide_left_mono) (simp_all add: one_le_power)
    also have "\<dots> = \<bar>real_of_int m\<bar>" by simp
    also have "\<dots> \<le> 9007199254740993" by (rule mb)
    also have "\<dots> < 2 powr 1024" by simp
    finally show ?thesis .
  qed
  show ?thesis using x low high by (simp add: fl_def r)
qed


lemma fl_near:
  fixes x :: real and k :: nat
  assumes n: "\<bar>x * 2 ^ k - of_int m\<bar> < 1 / 2" and lo: "2 ^ 52 < m" and hi: "m < 2 ^ 53"
      and k: "k \<le> 1000"
  shows "fl x = Some (of_int m / 2 ^ k)"
proof -
  have m: "roundEven (x * 2 ^ k) = m" using n by (rule roundEven_eqI)
  define Y where "Y = x * 2 ^ k"
  have "4503599627370497 \<le> real_of_int m" "real_of_int m \<le> 9007199254740991"
    using lo hi unfolding pow52 by linarith+
  moreover have "\<bar>Y - real_of_int m\<bar> < 1 / 2" using n unfolding Y_def .
  ultimately have "4503599627370496 \<le> Y" "Y < 9007199254740992" by linarith+
  then have "(2::real) ^ 52 \<le> x * 2 ^ k" "x * 2 ^ k < 2 ^ 53" unfolding pow52 Y_def .
  then show ?thesis using m k by (rule fl_eval)
qed

lemma fl_tie:
  fixes x :: real and k :: nat
  assumes t: "x * 2 ^ k = of_int m + 1 / 2" and lo: "2 ^ 52 \<le> m" and hi: "m < 2 ^ 53"
      and k: "k \<le> 1000"
  shows "fl x = Some (of_int (if even m then m else m + 1) / 2 ^ k)"
proof -
  have m: "roundEven (x * 2 ^ k) = (if even m then m else m + 1)" using t by (rule roundEven_tie)
  have "4503599627370496 \<le> real_of_int m" "real_of_int m \<le> 9007199254740991"
    using lo hi unfolding pow52 by linarith+
  then have "(2::real) ^ 52 \<le> x * 2 ^ k" "x * 2 ^ k < 2 ^ 53" unfolding t pow52 by linarith+
  then show ?thesis using m k by (rule fl_eval)
qed

text \<open>Evaluation of an operation at given numbers: the result is the double with the
  significand \<open>m\<close> when the scaled exact result is within a half of \<open>m\<close>, and on a tie
  when \<open>m\<close> is even.\<close>

lemma fl_val:
  fixes x :: real and k :: nat
  assumes "\<bar>x * 2 ^ k - of_int m\<bar> < 1 / 2" and "2 ^ 52 < m" and "m < 2 ^ 53" and "k \<le> 1000"
      and v: "v = of_int m / 2 ^ k"
  shows "fl x = Some v"
  unfolding v using assms(1-4) by (rule fl_near)

lemma fl_val_tie:
  fixes x :: real and k :: nat
  assumes t: "\<bar>x * 2 ^ k - of_int m\<bar> = 1 / 2" and e: "even m"
      and m: "2 ^ 52 < m" "m < 2 ^ 53" and k: "k \<le> 1000" and v: "v = of_int m / 2 ^ k"
  shows "fl x = Some v"
proof -
  consider "x * 2 ^ k = of_int m + 1 / 2" | "x * 2 ^ k = of_int (m - 1) + 1 / 2"
    using t by (auto simp: abs_if split: if_splits)
  then show ?thesis
  proof cases
    case 1
    then have "fl x = Some (of_int (if even m then m else m + 1) / 2 ^ k)"
      using m k by (intro fl_tie) simp_all
    then show ?thesis using e by (simp add: v)
  next
    case 2
    then have "fl x = Some (of_int (if even (m - 1) then m - 1 else m - 1 + 1) / 2 ^ k)"
      using m k by (intro fl_tie) simp_all
    then show ?thesis using e by (simp add: v)
  qed
qed

lemma fdivide_val:
  fixes a b :: real and k :: nat
  assumes "b \<noteq> 0" and "\<bar>a / b * 2 ^ k - of_int m\<bar> < 1 / 2" and "2 ^ 52 < m" and "m < 2 ^ 53"
      and "k \<le> 1000" and "v = of_int m / 2 ^ k"
  shows "fdivide a b = Some v"
  using assms(1) fl_val [OF assms(2-6)] by (simp add: fdivide_def)

lemma fsqrt_val:
  fixes x :: real and k :: nat
  assumes lo: "(of_int m - 1 / 2)\<^sup>2 < x * 4 ^ k" and hi: "x * 4 ^ k < (of_int m + 1 / 2)\<^sup>2"
      and m: "2 ^ 52 < m" "m < 2 ^ 53" and k: "k \<le> 1000" and v: "v = of_int m / 2 ^ k"
  shows "fsqrt x = Some v"
proof -
  have mp: "0 < real_of_int m - 1 / 2" using m(1) unfolding pow52 by linarith
  have "0 \<le> (real_of_int m - 1 / 2)\<^sup>2" by simp
  then have "0 < x * 4 ^ k" using lo by linarith
  then have x: "0 < x" by (simp add: zero_less_mult_iff)
  have "(4::real) ^ k = (2 ^ k)\<^sup>2" by (simp add: power2_eq_square flip: power_mult_distrib)
  then have s: "sqrt (x * 4 ^ k) = sqrt x * 2 ^ k" by (simp add: real_sqrt_mult)
  have "sqrt ((real_of_int m - 1 / 2)\<^sup>2) < sqrt (x * 4 ^ k)"
    using lo by (simp only: real_sqrt_less_iff)
  then have l: "real_of_int m - 1 / 2 < sqrt x * 2 ^ k" using mp unfolding s by simp
  have "sqrt (x * 4 ^ k) < sqrt ((real_of_int m + 1 / 2)\<^sup>2)"
    using hi by (simp only: real_sqrt_less_iff)
  then have h: "sqrt x * 2 ^ k < real_of_int m + 1 / 2" using mp unfolding s by simp
  have "\<bar>sqrt x * 2 ^ k - of_int m\<bar> < 1 / 2" using l h by linarith
  then have "fl (sqrt x) = Some v" using m k v by (rule fl_val)
  then show ?thesis using x by (simp add: fsqrt_def)
qed

text \<open>Results that are defined: an exact result in a band returns, in the next band.\<close>

lemma band_pos: "band n x \<Longrightarrow> 0 < x"
proof -
  assume "band n x"
  then have "1 / 2 ^ n \<le> x" by (simp add: band_def)
  moreover have "(0::real) < 1 / 2 ^ n" by simp
  ultimately show ?thesis by linarith
qed

lemma band_mono: "band n x \<Longrightarrow> n \<le> m \<Longrightarrow> band m x"
proof -
  assume b: "band n x" and le: "n \<le> m"
  have p: "(2::real) ^ n \<le> 2 ^ m" using le by (intro power_increasing) simp_all
  then have "1 / (2::real) ^ m \<le> 1 / 2 ^ n" by (intro divide_left_mono) simp_all
  moreover have "1 / 2 ^ n \<le> x" "x \<le> 2 ^ n" using b by (simp_all add: band_def)
  ultimately have "1 / 2 ^ m \<le> x" "x \<le> 2 ^ m" using p by linarith+
  then show ?thesis by (simp add: band_def)
qed

lemma band_mult: "band n x \<Longrightarrow> band m y \<Longrightarrow> band (n + m) (x * y)"
proof -
  assume x: "band n x" and y: "band m y"
  have px: "0 \<le> x" and py: "0 \<le> y" using band_pos [OF x] band_pos [OF y] by simp_all
  have "1 / 2 ^ n * (1 / 2 ^ m) \<le> x * y"
    using x y px py by (intro mult_mono) (simp_all add: band_def)
  moreover have "x * y \<le> 2 ^ n * 2 ^ m"
    using x y px py by (intro mult_mono) (simp_all add: band_def)
  ultimately show ?thesis by (simp add: band_def power_add)
qed

lemma band_inverse: "band n x \<Longrightarrow> band n (1 / x)"
proof -
  assume x: "band n x"
  note p = band_pos [OF x]
  have "1 / 2 ^ n \<le> 1 / x" using x p by (intro divide_left_mono) (simp_all add: band_def)
  moreover have "1 / x \<le> 1 / (1 / 2 ^ n)"
    using x p by (intro divide_left_mono) (simp_all add: band_def)
  ultimately show ?thesis by (simp add: band_def)
qed

lemma band_divide: "band n x \<Longrightarrow> band m y \<Longrightarrow> band (n + m) (x / y)"
  using band_mult [of n x m "1 / y"] band_inverse [of m y] by simp

lemma band_add: "band n x \<Longrightarrow> band n y \<Longrightarrow> band (Suc n) (x + y)"
proof -
  assume x: "band n x" and y: "band n y"
  have "(0::real) < 1 / 2 ^ n" by simp
  moreover have "1 / (2::real) ^ Suc n \<le> 1 / 2 ^ n" by (intro divide_left_mono) simp_all
  ultimately show ?thesis using x y by (simp add: band_def)
qed

lemma band_sqrt: "band (2 * n) x \<Longrightarrow> band n (sqrt x)"
proof -
  assume x: "band (2 * n) x"
  have e: "(2::real) ^ (2 * n) = (2 ^ n)\<^sup>2" by (simp add: power_mult power2_eq_square flip: power_mult_distrib)
  have "sqrt ((1 / 2 ^ n)\<^sup>2) \<le> sqrt x"
    using x unfolding band_def e by (simp only: real_sqrt_le_iff power_one_over power_one)
  moreover have "sqrt x \<le> sqrt ((2 ^ n)\<^sup>2)"
    using x unfolding band_def e by (simp only: real_sqrt_le_iff)
  ultimately show ?thesis by (simp add: band_def)
qed

lemma fl_band_abs:
  assumes b: "band n \<bar>x\<bar>" and n: "n \<le> 1021"
  shows "\<exists>y. fl x = Some y \<and> band (Suc n) \<bar>y\<bar>"
proof -
  define a where "a = \<bar>x\<bar>"
  have a: "0 < a" "band n a" using band_pos [OF b] b by (simp_all add: a_def)
  have x: "x \<noteq> 0" using a by (auto simp: a_def)
  have u: "0 < uround" "uround \<le> 1 / 2" by (simp_all add: uround_def)
  have "\<bar>\<bar>round53 x\<bar> - \<bar>x\<bar>\<bar> \<le> \<bar>round53 x - x\<bar>" by (rule abs_triangle_ineq3)
  also have "\<dots> \<le> a * uround" unfolding a_def by (rule round53_error)
  finally have e: "\<bar>\<bar>round53 x\<bar> - a\<bar> \<le> a * uround" by (simp add: a_def)
  have h: "a * uround \<le> a * (1 / 2)" using u a by (intro mult_left_mono) simp_all
  have lo: "a / 2 \<le> \<bar>round53 x\<bar>" and hi: "\<bar>round53 x\<bar> \<le> 2 * a" using e a h by linarith+
  have pn: "(2::real) ^ n \<le> 2 ^ 1021" using n by (intro power_increasing) simp_all
  have low: "2 powr (- 1022) \<le> \<bar>x\<bar>"
  proof -
    have "(2::real) powr (- 1022) = 1 / 2 ^ 1022" by (simp add: powr_minus inverse_eq_divide)
    also have "\<dots> \<le> 1 / 2 ^ 1021" by simp
    also have "\<dots> \<le> 1 / 2 ^ n" using pn by (intro divide_left_mono) simp_all
    also have "\<dots> \<le> a" using a by (simp add: band_def)
    finally show ?thesis by (simp add: a_def)
  qed
  have high: "\<bar>round53 x\<bar> < 2 powr 1024"
  proof -
    have "\<bar>round53 x\<bar> \<le> 2 * a" by (rule hi)
    also have "\<dots> \<le> 2 * 2 ^ n" using a by (simp add: band_def)
    also have "\<dots> \<le> 2 * 2 ^ 1021" using pn by simp
    also have "\<dots> < 2 powr 1024" by simp
    finally show ?thesis .
  qed
  have f: "fl x = Some (round53 x)" using x low high by (simp add: fl_def)
  have "1 / 2 ^ Suc n \<le> a / 2" using a by (simp add: band_def)
  moreover have "2 * a \<le> 2 ^ Suc n" using a by (simp add: band_def)
  ultimately have "band (Suc n) \<bar>round53 x\<bar>" using lo hi by (simp add: band_def)
  then show ?thesis using f by blast
qed

lemma fl_band:
  assumes b: "band n x" and n: "n \<le> 1021"
  shows "\<exists>y. fl x = Some y \<and> band (Suc n) y"
proof -
  note x = band_pos [OF b]
  have "band n \<bar>x\<bar>" using b x by simp
  then obtain y where y: "fl x = Some y" "band (Suc n) \<bar>y\<bar>" using n fl_band_abs by blast
  have "0 < y" using y(1) x by (rule fl_pos)
  then show ?thesis using y by auto
qed

lemma fl_zero: "fl 0 = Some 0"
  by (simp add: fl_def)

section \<open>Erlang B: the loop against the exact recurrence\<close>

lemma erlangLoop_stop: "c < i \<Longrightarrow> erlangLoop c a i b = Some b"
  by (subst erlangLoop.simps) simp

lemma calculateErlangB_neg:
  "c < 1 \<Longrightarrow> calculateErlangB c a = Some (if a = 0 then 0 else 1)"
  by (simp add: calculateErlangB_def erlangLoop_stop)

lemma erlangRec_pos: "0 < a \<Longrightarrow> 0 < erlangRec n a"
proof (induction n)
  case 0
  then show ?case by simp
next
  case (Suc n)
  then have "0 < a * erlangRec n a" by simp
  then show ?case by (simp add: add_pos_pos)
qed

lemma erlangRec_le_1: "0 < a \<Longrightarrow> erlangRec n a \<le> 1"
proof (cases n)
  case 0
  then show ?thesis by simp
next
  case (Suc m)
  assume a: "0 < a"
  have p: "0 < a * erlangRec m a"
    using a erlangRec_pos [OF a, of m] by simp
  show ?thesis
    unfolding Suc erlangRec.simps using p by (simp add: field_simps)
qed




















text \<open>
  Claim C2, as amended. With \<open>channels = 0\<close> the loop body never runs and nothing is
  divided: the function returns the initial value \<open>b = 1\<close> for every non-zero load
  (the base case \<open>B(0, A) = 1\<close> of the doc comment), and \<open>0\<close> only for load \<open>0\<close>,
  through the early return.
\<close>

theorem erlangB_zero_channels:
  "calculateErlangB 0 a = Some (if a = 0 then 0 else 1) \<and> erlangLoop 0 a 1 b = Some b"
  by (simp add: calculateErlangB_neg erlangLoop_stop)

theorem erlangB_zero_channels_witness:
  "calculateErlangB 0 0 = Some 0 \<and> calculateErlangB 0 5 = Some 1 \<and> erlangLoop 0 5 1 1 = Some 1"
  using erlangB_zero_channels [of 0 1] erlangB_zero_channels [of 5 1] by simp

text \<open>
  Claim C2 as stated fails: with \<open>channels = 0\<close> and load \<open>1\<close> the result is \<open>1\<close>,
  not \<open>0\<close>.
\<close>

theorem erlangB_zero_channels_counterexample:
  "calculateErlangB 0 1 = Some 1 \<and> calculateErlangB 0 1 \<noteq> Some 0"
  by (simp add: calculateErlangB_def erlangLoop_stop)




section \<open>Doppler kinematics: geometry and sign\<close>


lemma doppler_distance_ge:
  "260 \<le> sqrt ((TOWER_X - carX) * (TOWER_X - carX) + (TOWER_Y - ROAD_Y) * (TOWER_Y - ROAD_Y))"
proof -
  have "(260::real) = sqrt (260 * 260)" by simp
  also have "\<dots> \<le> sqrt ((TOWER_X - carX) * (TOWER_X - carX) + (TOWER_Y - ROAD_Y) * (TOWER_Y - ROAD_Y))"
    by (rule real_sqrt_le_mono) (simp add: TOWER_Y_def ROAD_Y_def)
  finally show ?thesis .
qed

lemma doppler_cos_bounds:
  fixes dx dy :: real
  assumes "0 < sqrt (dx * dx + dy * dy)"
  shows "\<bar>dx / sqrt (dx * dx + dy * dy)\<bar> \<le> 1"
proof -
  have "\<bar>dx\<bar> = sqrt (dx * dx)" by simp
  also have "\<dots> \<le> sqrt (dx * dx + dy * dy)" by (rule real_sqrt_le_mono) simp
  finally show ?thesis using assms by simp
qed

lemma calculatePhysics_Some:
  fixes carX vKmH fGHz :: real
  assumes f: "fGHz \<noteq> 0"
  shows "calculatePhysics carX vKmH fGHz =
     Some \<lparr> v_ms = vKmH * (5 / 18), lambda = C_light / (fGHz * 1000000000),
            thetaDeg = arccos ((TOWER_X - carX) / sqrt ((TOWER_X - carX) * (TOWER_X - carX) + (TOWER_Y - ROAD_Y) * (TOWER_Y - ROAD_Y))) * (180 / pi),
            deltaF = vKmH * (5 / 18) / (C_light / (fGHz * 1000000000))
                     * ((TOWER_X - carX) / sqrt ((TOWER_X - carX) * (TOWER_X - carX) + (TOWER_Y - ROAD_Y) * (TOWER_Y - ROAD_Y))),
            distance = sqrt ((TOWER_X - carX) * (TOWER_X - carX) + (TOWER_Y - ROAD_Y) * (TOWER_Y - ROAD_Y)),
            cosTheta = (TOWER_X - carX) / sqrt ((TOWER_X - carX) * (TOWER_X - carX) + (TOWER_Y - ROAD_Y) * (TOWER_Y - ROAD_Y)) \<rparr>"
proof -
  define dx where "dx = TOWER_X - carX"
  define d where "d = sqrt (dx * dx + (TOWER_Y - ROAD_Y) * (TOWER_Y - ROAD_Y))"
  have d: "260 \<le> d" unfolding d_def dx_def by (rule doppler_distance_ge)
  then have dpos: "0 < d" by simp
  have c: "\<bar>dx / d\<bar> \<le> 1" unfolding d_def
    by (rule doppler_cos_bounds) (use dpos in \<open>simp add: d_def\<close>)
  have e1: "fdiv C_light (fGHz * 1000000000) = Some (C_light / (fGHz * 1000000000))"
    using f by (simp add: fdiv_def)
  have e2: "fdiv dx d = Some (dx / d)"
    using dpos by (simp add: fdiv_def)
  have e3: "facos (dx / d) = Some (arccos (dx / d))"
  proof -
    have u: "dx / d \<le> 1" using c by (rule abs_le_D1)
    have "- (dx / d) \<le> 1" using c by (rule abs_le_D2)
    then have l: "- 1 \<le> dx / d" by linarith
    show ?thesis unfolding facos_def using u l by (simp only: if_True simp_thms)
  qed
  have e4: "fdiv (vKmH * (5 / 18)) (C_light / (fGHz * 1000000000))
            = Some (vKmH * (5 / 18) / (C_light / (fGHz * 1000000000)))"
    using f by (simp add: fdiv_def C_light_def)
  have "calculatePhysics carX vKmH fGHz =
     Some \<lparr> v_ms = vKmH * (5 / 18), lambda = C_light / (fGHz * 1000000000),
            thetaDeg = arccos (dx / d) * (180 / pi),
            deltaF = vKmH * (5 / 18) / (C_light / (fGHz * 1000000000)) * (dx / d),
            distance = d, cosTheta = dx / d \<rparr>"
    unfolding calculatePhysics_def Let_def dx_def [symmetric] d_def [symmetric]
    by (simp only: e1 e2 e3 e4 option.case)
  then show ?thesis unfolding d_def dx_def .
qed


lemma doppler_theta_bounds:
  assumes "\<bar>c\<bar> \<le> 1"
  shows "0 \<le> arccos c * (180 / pi) \<and> arccos c * (180 / pi) \<le> 180"
proof -
  have u: "c \<le> 1" using assms by (rule abs_le_D1)
  have "- c \<le> 1" using assms by (rule abs_le_D2)
  then have l: "- 1 \<le> c" by linarith
  have a0: "0 \<le> arccos c" using l u by (rule arccos_lbound)
  have a1: "arccos c \<le> pi" using l u by (rule arccos_ubound)
  have "arccos c * (180 / pi) \<le> pi * (180 / pi)"
    using a1 by (intro mult_right_mono) auto
  then show ?thesis using a0 by simp
qed

text \<open>
  Claim C10. The car-to-tower distance is at least the vertical offset
  \<open>|TOWER_Y - ROAD_Y| = 260\<close> for every car position, so the division \<open>dx / d\<close> is
  defined, the cosine lies in \<open>[-1, 1]\<close>, \<open>Math.acos\<close> returns an angle and the angle
  in degrees lies in \<open>[0, 180]\<close>; with a non-zero carrier frequency the whole frame is
  computed with these values.
\<close>

theorem doppler_distance_positive:
  fixes carX vKmH fGHz :: real
  defines "dx \<equiv> TOWER_X - carX"
  defines "d \<equiv> sqrt ((TOWER_X - carX) * (TOWER_X - carX) + (TOWER_Y - ROAD_Y) * (TOWER_Y - ROAD_Y))"
  shows "\<bar>TOWER_Y - ROAD_Y\<bar> = 260 \<and> 260 \<le> d
    \<and> fdiv dx d = Some (dx / d) \<and> \<bar>dx / d\<bar> \<le> 1
    \<and> facos (dx / d) = Some (arccos (dx / d))
    \<and> 0 \<le> arccos (dx / d) * (180 / pi) \<and> arccos (dx / d) * (180 / pi) \<le> 180
    \<and> (fGHz \<noteq> 0 \<longrightarrow>
         (\<exists>p. calculatePhysics carX vKmH fGHz = Some p \<and> distance p = d
              \<and> cosTheta p = dx / d \<and> thetaDeg p = arccos (dx / d) * (180 / pi)))"
proof -
  have d: "260 \<le> d" unfolding d_def by (rule doppler_distance_ge)
  then have dpos: "0 < d" by simp
  have c: "\<bar>dx / d\<bar> \<le> 1" unfolding dx_def d_def
    by (rule doppler_cos_bounds) (use dpos in \<open>simp add: d_def\<close>)
  have u: "dx / d \<le> 1" using c by (rule abs_le_D1)
  have "- (dx / d) \<le> 1" using c by (rule abs_le_D2)
  then have l: "- 1 \<le> dx / d" by linarith
  have e3: "facos (dx / d) = Some (arccos (dx / d))"
    unfolding facos_def using u l by (simp only: if_True simp_thms)
  have e2: "fdiv dx d = Some (dx / d)" using dpos by (simp add: fdiv_def)
  have off: "\<bar>TOWER_Y - ROAD_Y\<bar> = 260" by (simp add: TOWER_Y_def ROAD_Y_def)
  have th: "0 \<le> arccos (dx / d) * (180 / pi) \<and> arccos (dx / d) * (180 / pi) \<le> 180"
    using c by (rule doppler_theta_bounds)
  have fr: "fGHz \<noteq> 0 \<longrightarrow>
         (\<exists>p. calculatePhysics carX vKmH fGHz = Some p \<and> distance p = d
              \<and> cosTheta p = dx / d \<and> thetaDeg p = arccos (dx / d) * (180 / pi))"
  proof
    assume "fGHz \<noteq> 0"
    then show "\<exists>p. calculatePhysics carX vKmH fGHz = Some p \<and> distance p = d
              \<and> cosTheta p = dx / d \<and> thetaDeg p = arccos (dx / d) * (180 / pi)"
      unfolding dx_def d_def by (simp add: calculatePhysics_Some)
  qed
  show ?thesis using off d e2 c e3 th fr by (intro conjI) auto
qed

theorem doppler_distance_positive_witness:
  "\<exists>p. calculatePhysics 400 100 2.5 = Some p \<and> distance p = 260 \<and> cosTheta p = 0
       \<and> thetaDeg p = 90"
  using doppler_distance_positive [where carX = 400 and fGHz = "2.5" and vKmH = 100]
  by (simp add: TOWER_X_def CANVAS_WIDTH_def TOWER_Y_def ROAD_Y_def)

text \<open>
  Claim C8. With a positive speed and a positive carrier frequency the frame is computed,
  and the Doppler shift has the sign of the horizontal offset \<open>dx = TOWER_X - carX\<close>:
  positive while approaching, negative while receding, zero at the closest point.
\<close>

theorem doppler_sign:
  fixes carX vKmH fGHz :: real
  assumes "0 < vKmH" and "0 < fGHz"
  shows "\<exists>p. calculatePhysics carX vKmH fGHz = Some p
    \<and> (0 < TOWER_X - carX \<longrightarrow> 0 < deltaF p)
    \<and> (TOWER_X - carX < 0 \<longrightarrow> deltaF p < 0)
    \<and> (TOWER_X - carX = 0 \<longrightarrow> deltaF p = 0)"
proof -
  define d where "d = sqrt ((TOWER_X - carX) * (TOWER_X - carX) + (TOWER_Y - ROAD_Y) * (TOWER_Y - ROAD_Y))"
  define k where "k = vKmH * (5 / 18) / (C_light / (fGHz * 1000000000))"
  have "260 \<le> d" unfolding d_def by (rule doppler_distance_ge)
  then have dpos: "0 < d" by simp
  have kpos: "0 < k" unfolding k_def using assms by (simp add: C_light_def)
  have f: "fGHz \<noteq> 0" using assms by simp
  have "deltaF (the (calculatePhysics carX vKmH fGHz)) = k * ((TOWER_X - carX) / d)"
    by (simp add: calculatePhysics_Some [OF f] k_def d_def)
  moreover have "\<exists>p. calculatePhysics carX vKmH fGHz = Some p"
    by (simp add: calculatePhysics_Some [OF f])
  moreover have "0 < TOWER_X - carX \<longrightarrow> 0 < k * ((TOWER_X - carX) / d)"
    using kpos dpos by simp
  moreover have "TOWER_X - carX < 0 \<longrightarrow> k * ((TOWER_X - carX) / d) < 0"
    using kpos dpos by (simp add: mult_pos_neg divide_neg_pos)
  ultimately show ?thesis by auto
qed

theorem doppler_sign_witness:
  "(\<exists>p. calculatePhysics 0 100 2.5 = Some p \<and> 0 < deltaF p)
   \<and> (\<exists>p. calculatePhysics 800 100 2.5 = Some p \<and> deltaF p < 0)
   \<and> (\<exists>p. calculatePhysics 400 100 2.5 = Some p \<and> deltaF p = 0)"
  using doppler_sign [where vKmH = 100 and fGHz = "2.5" and carX = 0] doppler_sign [where vKmH = 100 and fGHz = "2.5" and carX = 800] doppler_sign [where vKmH = 100 and fGHz = "2.5" and carX = 400]
  by (simp add: TOWER_X_def CANVAS_WIDTH_def)


section \<open>Handoff: theoretical point and drop check\<close>


lemma log_distance_balance:
  fixes g D H :: real
  assumes g: "0 < g"
  defines "f \<equiv> 10 powr (H / (10 * g))"
  defines "q \<equiv> D * f / (1 + f)"
  assumes q: "0 < q" and dq: "0 < D - q"
  shows "P - 10 * g * log 10 (D - q) = (P - 10 * g * log 10 q) + H"
proof -
  have fpos: "0 < f" unfolding f_def by simp
  have dq_eq: "D - q = D / (1 + f)"
    unfolding q_def using fpos by (simp add: field_simps)
  have Dpos: "0 < D"
    using dq fpos unfolding dq_eq by (simp add: zero_less_divide_iff)
  have "q = D / (1 + f) * f" unfolding q_def by simp
  then have q_eq: "q = (D - q) * f" using dq_eq by simp
  have "log 10 q = log 10 (D - q) + log 10 f"
    using dq fpos by (subst q_eq) (simp add: log_mult)
  moreover have "log 10 f = H / (10 * g)" unfolding f_def by simp
  ultimately have "10 * g * log 10 q = 10 * g * log 10 (D - q) + H"
    using g by (simp add: algebra_simps)
  then show ?thesis by simp
qed


lemma TOTAL_DIST_pos: "0 < TOTAL_DIST env"
  by (simp add: TOTAL_DIST_def)

lemma gamma_pos: "0 < gamma env"
  by (simp add: gamma_def)

lemma calculateSignal_noiseless:
  "1 \<le> d \<Longrightarrow> calculateSignal d env 0 r = P_TX - 10 * gamma env * log 10 d"
  by (simp add: calculateSignal_def gamma_def max_def)

text \<open>
  Claim C5. In hysteresis mode the theoretical handoff point \<open>p\<close> balances the two
  noiseless received powers up to the margin: the signal of the far station, at distance
  \<open>TOTAL_DIST - p\<close>, is the signal of the near station, at distance \<open>p\<close>, plus \<open>H\<close>,
  whenever both distances are at least \<open>1\<close> (so that \<open>max(d, 1)\<close> is \<open>d\<close>).
\<close>

theorem hysteresis_point_balance:
  fixes env :: environment and H D0 :: real
  defines "p \<equiv> theoreticalHOPoint hysteresis env D0 H"
  assumes p1: "1 \<le> p" and p2: "1 \<le> TOTAL_DIST env - p"
  shows "calculateSignal (TOTAL_DIST env - p) env 0 r2 = calculateSignal p env 0 r1 + H"
proof -
  have pd: "p = TOTAL_DIST env * 10 powr (H / (10 * gamma env))
                / (1 + 10 powr (H / (10 * gamma env)))"
    unfolding p_def by (simp add: theoreticalHOPoint_def Let_def)
  have "P_TX - 10 * gamma env * log 10 (TOTAL_DIST env - p)
        = (P_TX - 10 * gamma env * log 10 p) + H"
    unfolding pd
    by (rule log_distance_balance [OF gamma_pos]) (use p1 p2 in \<open>simp_all add: pd [symmetric]\<close>)
  then show ?thesis
    using p1 p2 by (simp add: calculateSignal_noiseless)
qed

theorem hysteresis_point_balance_witness:
  "theoreticalHOPoint hysteresis highway 10 30 = 100000 / 11
   \<and> calculateSignal (10000 - 100000 / 11) highway 0 0
       = calculateSignal (100000 / 11) highway 0 0 + 30"
proof -
  have e: "theoreticalHOPoint hysteresis highway 10 30 = 100000 / 11"
    by (simp add: theoreticalHOPoint_def gamma_def TOTAL_DIST_def)
  show ?thesis
    using hysteresis_point_balance [of highway 10 30 0 0]
    by (simp add: e TOTAL_DIST_def)
qed

lemma handoffTick_boundary:
  assumes "TOTAL_DIST (environment p) \<le> uePosition s + ueSpeed p / 3.6 * 1"
  shows "handoffTick p s r1 r2 = s\<lparr> isMoving := False, uePosition := TOTAL_DIST (environment p) \<rparr>"
    and "currentRSSI p s r1 r2 = None"
  using assms by (simp_all add: handoffTick_def currentRSSI_def Let_def)

text \<open>
  Claim C6. The drop check comes before the handoff rule: when the signal of the serving
  cell that the tick computes is below \<open>P_MIN\<close>, the tick appends exactly one event,
  of kind \<open>drop\<close>, stops the movement, and leaves the position and the serving cell as
  they were; the handoff rule is not run.
\<close>

theorem drop_before_handoff:
  assumes rssi: "currentRSSI p s r1 r2 = Some v" and low: "v < P_MIN"
  shows "handoffTick p s r1 r2 =
           s\<lparr> isMoving := False,
              handoffEvents := handoffEvents s
                 @ [\<lparr> pos = uePosition s + ueSpeed p / 3.6 * 1, type = ''drop'' \<rparr>],
              isPingPonging := False \<rparr>
         \<and> handoffEvents (handoffTick p s r1 r2)
             = handoffEvents s @ [\<lparr> pos = uePosition s + ueSpeed p / 3.6 * 1, type = ''drop'' \<rparr>]
         \<and> \<not> isMoving (handoffTick p s r1 r2)
         \<and> uePosition (handoffTick p s r1 r2) = uePosition s
         \<and> activeBS (handoffTick p s r1 r2) = activeBS s"
proof -
  have "handoffTick p s r1 r2 =
           s\<lparr> isMoving := False,
              handoffEvents := handoffEvents s
                 @ [\<lparr> pos = uePosition s + ueSpeed p / 3.6 * 1, type = ''drop'' \<rparr>],
              isPingPonging := False \<rparr>"
    using rssi low
    by (simp add: handoffTick_def currentRSSI_def Let_def split: if_splits)
  then show ?thesis by simp
qed

lemma log10_9975: "log 10 9975 > (159 / 40 :: real)"
proof -
  have "(10::real) ^ 159 < 9975 ^ 40" by simp
  then have "log 10 ((10::real) ^ 159) < log 10 (9975 ^ 40)"
    by (subst log_less_cancel_iff) simp_all
  then have "159 < 40 * log 10 (9975::real)"
    by (simp only: log_pow_cancel log_nat_power)
  then show ?thesis by simp
qed

theorem drop_before_handoff_witness:
  "handoffEvents (handoffTick exampleParams exampleState 0 0) = [\<lparr> pos = 9975, type = ''drop'' \<rparr>]
   \<and> \<not> isMoving (handoffTick exampleParams exampleState 0 0)
   \<and> uePosition (handoffTick exampleParams exampleState 0 0) = 9950
   \<and> activeBS (handoffTick exampleParams exampleState 0 0) = BS1"
proof -
  have rssi: "currentRSSI exampleParams exampleState 0 0 = Some (- 90 - 3 / 4 + (120 - 30 * log 10 9975))"
    by (simp add: exampleParams_def exampleState_def currentRSSI_def calculateSignal_def
      P_TX_def TOTAL_DIST_def)
  have low: "- 90 - 3 / 4 + (120 - 30 * log 10 9975) < P_MIN"
    using log10_9975 by (simp add: P_MIN_def)
  show ?thesis
    using drop_before_handoff [OF rssi low]
    by (simp add: exampleParams_def exampleState_def)
qed


section \<open>Occupancy simulator: the event log\<close>


lemma trunkTick_events_cases:
  "events (trunkTick p s inp) = events s
   \<or> (\<exists>e. events (trunkTick p s inp) = take 5 (e # events s))"
  by (auto simp: trunkTick_def split: prod.splits option.splits)

lemma trunkTick_length:
  "length (events s) \<le> 5 \<Longrightarrow> length (events (trunkTick p s inp)) \<le> 5"
  using trunkTick_events_cases [of p s inp] by auto

lemma trunkRun_length:
  "length (events s) \<le> 5 \<Longrightarrow> length (events (trunkRun p s inps)) \<le> 5"
  by (induction inps arbitrary: s) (simp_all add: trunkTick_length)

lemma trunkTick_arrival_departure:
  assumes arr: "randArrival inp < arrivalRate p * 0.1"
      and dep: "randDeparture inp < of_int (currentBusy s) * serviceRate p * 0.1"
      and busy: "0 < (if currentBusy s < channels p then currentBusy s + 1 else currentBusy s)"
  shows "trunkTick p s inp =
     s\<lparr> currentBusy := (if currentBusy s < channels p then currentBusy s + 1 else currentBusy s) - 1,
        events := take 5 (\<lparr> eventId = now inp,
                            eventType = (if currentBusy s < channels p then ''success'' else ''drop''),
                            eventTime = timeString inp \<rparr> # events s),
        stats := (if currentBusy s < channels p
                  then (stats s)\<lparr> totalCalls := totalCalls (stats s) + 1 \<rparr>
                  else (stats s)\<lparr> totalCalls := totalCalls (stats s) + 1,
                                 droppedCalls := droppedCalls (stats s) + 1 \<rparr>) \<rparr>"
  using assms
  by (auto simp: trunkTick_def handleArrival_def handleDeparture_def Let_def split: if_splits)

text \<open>
  Claim C9. A tick appends at most one event to the log, at its front, and cuts the log
  to its 5 most recent entries; when a call arrives and a call ends in the same tick, the
  arrival's event (\<open>success\<close> or \<open>drop\<close>) is the one logged, no \<open>end\<close> event is
  logged, and the departure still frees its channel; a log of at most 5 entries stays so,
  hence the log never holds more than 5 entries in a run from the reset state.
\<close>

theorem occupancy_event_log:
  "(events (trunkTick p s inp) = events s
      \<or> (\<exists>e. events (trunkTick p s inp) = take 5 (e # events s)))
   \<and> (randArrival inp < arrivalRate p * 0.1
        \<and> randDeparture inp < of_int (currentBusy s) * serviceRate p * 0.1
        \<and> 0 < (if currentBusy s < channels p then currentBusy s + 1 else currentBusy s)
      \<longrightarrow> (\<exists>e. events (trunkTick p s inp) = take 5 (e # events s)
             \<and> eventId e = now inp
             \<and> eventType e = (if currentBusy s < channels p then ''success'' else ''drop'')
             \<and> eventType e \<noteq> ''end'')
          \<and> currentBusy (trunkTick p s inp)
              = (if currentBusy s < channels p then currentBusy s + 1 else currentBusy s) - 1)
   \<and> (length (events s) \<le> 5 \<longrightarrow> length (events (trunkTick p s inp)) \<le> 5)
   \<and> length (events (trunkRun p resetSim inps)) \<le> 5"
proof (intro conjI impI)
  show "events (trunkTick p s inp) = events s
      \<or> (\<exists>e. events (trunkTick p s inp) = take 5 (e # events s))"
    by (rule trunkTick_events_cases)
next
  assume h: "randArrival inp < arrivalRate p * 0.1
        \<and> randDeparture inp < of_int (currentBusy s) * serviceRate p * 0.1
        \<and> 0 < (if currentBusy s < channels p then currentBusy s + 1 else currentBusy s)"
  then have eq: "trunkTick p s inp =
     s\<lparr> currentBusy := (if currentBusy s < channels p then currentBusy s + 1 else currentBusy s) - 1,
        events := take 5 (\<lparr> eventId = now inp,
                            eventType = (if currentBusy s < channels p then ''success'' else ''drop''),
                            eventTime = timeString inp \<rparr> # events s),
        stats := (if currentBusy s < channels p
                  then (stats s)\<lparr> totalCalls := totalCalls (stats s) + 1 \<rparr>
                  else (stats s)\<lparr> totalCalls := totalCalls (stats s) + 1,
                                 droppedCalls := droppedCalls (stats s) + 1 \<rparr>) \<rparr>"
    by (intro trunkTick_arrival_departure) simp_all
  show "\<exists>e. events (trunkTick p s inp) = take 5 (e # events s)
             \<and> eventId e = now inp
             \<and> eventType e = (if currentBusy s < channels p then ''success'' else ''drop'')
             \<and> eventType e \<noteq> ''end''"
    by (subst eq, rule exI [where x = "\<lparr> eventId = now inp,
                            eventType = (if currentBusy s < channels p then ''success'' else ''drop''),
                            eventTime = timeString inp \<rparr>"]) simp
  show "currentBusy (trunkTick p s inp)
              = (if currentBusy s < channels p then currentBusy s + 1 else currentBusy s) - 1"
    by (subst eq) simp
next
  assume "length (events s) \<le> 5"
  then show "length (events (trunkTick p s inp)) \<le> 5" by (rule trunkTick_length)
next
  show "length (events (trunkRun p resetSim inps)) \<le> 5"
    by (rule trunkRun_length) (simp add: resetSim_def)
qed

theorem occupancy_event_log_witness:
  "(\<exists>e. events (trunkTick busyParams busyState busyInput) = [e]
        \<and> eventId e = 1000 \<and> eventType e = ''success'')
   \<and> currentBusy (trunkTick busyParams busyState busyInput) = 3
   \<and> length (events (trunkRun busyParams resetSim [busyInput, busyInput])) \<le> 5"
proof -
  have h: "randArrival busyInput < arrivalRate busyParams * 0.1
        \<and> randDeparture busyInput < of_int (currentBusy busyState) * serviceRate busyParams * 0.1
        \<and> 0 < (if currentBusy busyState < channels busyParams
                then currentBusy busyState + 1 else currentBusy busyState)"
    by (simp add: busyParams_def busyState_def busyInput_def)
  have l: "length (events busyState) \<le> 5" by (simp add: busyState_def)
  from occupancy_event_log [of busyParams busyState busyInput "[busyInput, busyInput]"] h l
  show ?thesis
    by (auto simp: busyParams_def busyState_def busyInput_def)
qed


section \<open>Multipath: ordering of the path list\<close>

lemma those_Some_nth:
  assumes "those (map f xs) = Some ys"
  shows "length ys = length xs \<and> (\<forall>i < length xs. f (xs ! i) = Some (ys ! i))"
  using assms
proof (induction xs arbitrary: ys)
  case Nil
  then show ?case by simp
next
  case (Cons x xs)
  from Cons.prems obtain y ys' where y: "f x = Some y" and t: "those (map f xs) = Some ys'"
    and ys: "ys = y # ys'"
    by (auto split: option.splits)
  from Cons.IH [OF t] show ?case
    using y ys by (auto simp: nth_Cons split: nat.splits)
qed

lemma triangle_2d:
  fixes tx ty bx by' rx ry :: real
  shows "sqrt ((rx - tx)\<^sup>2 + (ry - ty)\<^sup>2)
         \<le> sqrt ((bx - tx)\<^sup>2 + (by' - ty)\<^sup>2) + sqrt ((rx - bx)\<^sup>2 + (ry - by')\<^sup>2)"
  using real_sqrt_sum_squares_triangle_ineq [of "bx - tx" "rx - bx" "by' - ty" "ry - by'"]
  by simp

lemma sort_key_min_first:
  assumes "\<forall>y \<in> set ys. f x \<le> f y"
  shows "sort_key f (x # ys) = x # sort_key f ys"
proof -
  have "\<forall>y \<in> set (sort_key f ys). f x \<le> f y" using assms by simp
  then have "insort_key f x (sort_key f ys) = x # sort_key f ys"
    by (rule insort_is_Cons)
  then show ?thesis by simp
qed

lemma nlosLength_ge: "losLength rx \<le> nlosLength rx b"
  unfolding losLength_def nlosLength_def by (rule triangle_2d)

subsection \<open>Rounding errors of the lengths, delays and amplitudes\<close>

text \<open>A computed segment length carries three roundings relative to the exact length: of
  the difference, of the square and of the sum under the root, halved by the root, and of
  the root itself.\<close>

lemma square_bounds:
  assumes dx: "fsub a b = Some dx" and sx: "fpow dx 2 = Some sx"
  shows "(a - b)\<^sup>2 * (1 - uround) ^ 3 \<le> sx" and "sx \<le> (a - b)\<^sup>2 * (1 + uround) ^ 3"
proof -
  define X where "X = a - b"
  note u = uround_bounds
  have e: "\<bar>dx - X\<bar> \<le> \<bar>X\<bar> * uround"
    using dx unfolding fsub_def X_def by (rule fl_error)
  have lo: "\<bar>X\<bar> * (1 - uround) \<le> \<bar>dx\<bar>" and hi: "\<bar>dx\<bar> \<le> \<bar>X\<bar> * (1 + uround)"
    using e by (auto simp: algebra_simps abs_le_iff)
  have lo0: "0 \<le> \<bar>X\<bar> * (1 - uround)" using u by simp
  have "(\<bar>X\<bar> * (1 - uround))\<^sup>2 \<le> \<bar>dx\<bar>\<^sup>2" using lo lo0 by (rule power_mono)
  moreover have "(\<bar>X\<bar> * (1 - uround))\<^sup>2 = X\<^sup>2 * (1 - uround)\<^sup>2" by (simp add: power_mult_distrib)
  moreover have sq: "\<bar>dx\<bar>\<^sup>2 = dx * dx" by (simp add: power2_eq_square)
  ultimately have l2: "X\<^sup>2 * (1 - uround)\<^sup>2 \<le> dx * dx" by simp
  have "\<bar>dx\<bar>\<^sup>2 \<le> (\<bar>X\<bar> * (1 + uround))\<^sup>2" using hi by (rule power_mono) simp
  moreover have "(\<bar>X\<bar> * (1 + uround))\<^sup>2 = X\<^sup>2 * (1 + uround)\<^sup>2" by (simp add: power_mult_distrib)
  ultimately have h2: "dx * dx \<le> X\<^sup>2 * (1 + uround)\<^sup>2" using sq by simp
  have f: "fl (dx * dx) = Some sx" using sx by (simp add: fpow_def fmul_def)
  have nn: "0 \<le> dx * dx" by simp
  have "X\<^sup>2 * (1 - uround)\<^sup>2 * (1 - uround) \<le> dx * dx * (1 - uround)"
    using l2 u by (intro mult_right_mono) simp_all
  also have "\<dots> \<le> sx" using f nn by (rule fl_pos_bounds)
  finally show "(a - b)\<^sup>2 * (1 - uround) ^ 3 \<le> sx"
    by (simp add: X_def power3_eq_cube power2_eq_square algebra_simps)
  have "sx \<le> dx * dx * (1 + uround)" using f nn by (rule fl_pos_bounds)
  also have "\<dots> \<le> X\<^sup>2 * (1 + uround)\<^sup>2 * (1 + uround)"
    using h2 u by (intro mult_right_mono) simp_all
  finally show "sx \<le> (a - b)\<^sup>2 * (1 + uround) ^ 3"
    by (simp add: X_def power3_eq_cube power2_eq_square algebra_simps)
qed

lemma sqrt_scaled:
  assumes "0 \<le> c"
  shows "sqrt (S * c ^ 4) = sqrt S * c\<^sup>2"
proof -
  have c4: "c ^ 4 = (c\<^sup>2)\<^sup>2" by simp
  have "sqrt ((c\<^sup>2)\<^sup>2) = c\<^sup>2" by (simp only: real_sqrt_abs abs_power2)
  then show ?thesis unfolding c4 real_sqrt_mult by (simp only:)
qed

lemma segmentLength_bounds:
  assumes "segmentLength p q = Some d"
  shows "sqrt ((pt_x q - pt_x p)\<^sup>2 + (pt_y q - pt_y p)\<^sup>2) * (1 - uround) ^ 3 \<le> d"
    and "d \<le> sqrt ((pt_x q - pt_x p)\<^sup>2 + (pt_y q - pt_y p)\<^sup>2) * (1 + uround) ^ 3"
proof -
  note u = uround_bounds
  from assms obtain dx sx dy sy s where
    dx: "fsub (pt_x q) (pt_x p) = Some dx" and sx: "fpow dx 2 = Some sx" and
    dy: "fsub (pt_y q) (pt_y p) = Some dy" and sy: "fpow dy 2 = Some sy" and
    s: "fadd sx sy = Some s" and d: "fsqrt s = Some d"
    unfolding segmentLength_def by (auto simp: bind_eq_Some_conv)
  define X where "X = (pt_x q - pt_x p)\<^sup>2"
  define Y where "Y = (pt_y q - pt_y p)\<^sup>2"
  have X: "0 \<le> X" and Y: "0 \<le> Y" by (simp_all add: X_def Y_def)
  have bx: "X * (1 - uround) ^ 3 \<le> sx" "sx \<le> X * (1 + uround) ^ 3"
    unfolding X_def using dx sx by (rule square_bounds)+
  have by': "Y * (1 - uround) ^ 3 \<le> sy" "sy \<le> Y * (1 + uround) ^ 3"
    unfolding Y_def using dy sy by (rule square_bounds)+
  have "0 \<le> X * (1 - uround) ^ 3" "0 \<le> Y * (1 - uround) ^ 3" using X Y u by simp_all
  then have nn: "0 \<le> sx + sy" using bx(1) by'(1) by linarith
  have fs: "fl (sx + sy) = Some s" using s by (simp add: fadd_def)
  have "(X + Y) * (1 - uround) ^ 3 * (1 - uround) \<le> (sx + sy) * (1 - uround)"
    using bx(1) by'(1) u by (intro mult_right_mono) (simp_all add: algebra_simps)
  also have "\<dots> \<le> s" using fs nn by (rule fl_pos_bounds)
  finally have sl: "(X + Y) * (1 - uround) ^ 4 \<le> s" by (simp add: eval_nat_numeral algebra_simps)
  have "s \<le> (sx + sy) * (1 + uround)" using fs nn by (rule fl_pos_bounds)
  also have "\<dots> \<le> (X + Y) * (1 + uround) ^ 3 * (1 + uround)"
    using bx(2) by'(2) u by (intro mult_right_mono) (simp_all add: algebra_simps)
  finally have sh: "s \<le> (X + Y) * (1 + uround) ^ 4" by (simp add: eval_nat_numeral algebra_simps)
  have s0: "0 \<le> s"
  proof -
    have "0 \<le> (X + Y) * (1 - uround) ^ 4" using X Y u by simp
    then show ?thesis using sl by linarith
  qed
  have fd: "fl (sqrt s) = Some d" using d s0 by (simp add: fsqrt_def)
  have q0: "0 \<le> sqrt s" using s0 by simp
  have "sqrt (X + Y) * (1 - uround)\<^sup>2 = sqrt ((X + Y) * (1 - uround) ^ 4)"
    using u by (simp add: sqrt_scaled)
  also have "\<dots> \<le> sqrt s" using sl by simp
  finally have ql: "sqrt (X + Y) * (1 - uround)\<^sup>2 \<le> sqrt s" .
  have "sqrt s \<le> sqrt ((X + Y) * (1 + uround) ^ 4)" using sh by simp
  also have "\<dots> = sqrt (X + Y) * (1 + uround)\<^sup>2" using u by (simp add: sqrt_scaled)
  finally have qh: "sqrt s \<le> sqrt (X + Y) * (1 + uround)\<^sup>2" .
  have "sqrt (X + Y) * (1 - uround)\<^sup>2 * (1 - uround) \<le> sqrt s * (1 - uround)"
    using ql u by (intro mult_right_mono) simp_all
  also have "\<dots> \<le> d" using fd q0 by (rule fl_pos_bounds)
  finally show "sqrt ((pt_x q - pt_x p)\<^sup>2 + (pt_y q - pt_y p)\<^sup>2) * (1 - uround) ^ 3 \<le> d"
    by (simp add: X_def Y_def eval_nat_numeral algebra_simps)
  have "d \<le> sqrt s * (1 + uround)" using fd q0 by (rule fl_pos_bounds)
  also have "\<dots> \<le> sqrt (X + Y) * (1 + uround)\<^sup>2 * (1 + uround)"
    using qh u by (intro mult_right_mono) simp_all
  finally show "d \<le> sqrt ((pt_x q - pt_x p)\<^sup>2 + (pt_y q - pt_y p)\<^sup>2) * (1 + uround) ^ 3"
    by (simp add: X_def Y_def eval_nat_numeral algebra_simps)
qed

lemma rounding_margin: "(1 + uround) ^ 9 < 2 * (1 - uround) ^ 10"
proof -
  have u: "0 < uround" "uround \<le> 1 / 100" by (simp_all add: uround_def)
  have "(1 + uround) ^ 9 \<le> (1 + 1 / 100) ^ 9" using u by (intro power_mono) simp_all
  also have "\<dots> < 2 * (1 - 1 / 100) ^ 10" by (simp add: power_divide)
  also have "\<dots> \<le> 2 * (1 - uround) ^ 10"
    using u by (intro mult_left_mono power_mono) simp_all
  finally show ?thesis .
qed

lemma los_length_bounds:
  assumes d0: "segmentLength TX_POS rx = Some d0"
  shows "losLength rx * (1 - uround) ^ 3 \<le> d0" and "d0 \<le> losLength rx * (1 + uround) ^ 3"
  unfolding losLength_def using d0 by (rule segmentLength_bounds)+

lemma los_delay_bounds:
  assumes d0: "segmentLength TX_POS rx = Some d0"
      and tau0: "fdivide d0 C_scaled = Some tau0"
  shows "losLength rx / C_scaled * (1 - uround) ^ 4 \<le> tau0"
    and "tau0 \<le> losLength rx / C_scaled * (1 + uround) ^ 4"
proof -
  note u = uround_bounds
  note l = los_length_bounds(1) [OF d0] and h = los_length_bounds(2) [OF d0]
  have D: "0 \<le> losLength rx" by (simp add: losLength_def)
  then have "0 \<le> losLength rx * (1 - uround) ^ 3" using u by simp
  then have d: "0 \<le> d0" using l by linarith
  have f: "fl (d0 / 300) = Some tau0" using tau0 by (simp add: fdivide_def C_scaled_def)
  have q: "0 \<le> d0 / 300" using d by simp
  have "losLength rx * (1 - uround) ^ 3 / 300 * (1 - uround) \<le> d0 / 300 * (1 - uround)"
    using l u by (intro mult_right_mono divide_right_mono) simp_all
  also have "\<dots> \<le> tau0" using f q by (rule fl_pos_bounds)
  finally show "losLength rx / C_scaled * (1 - uround) ^ 4 \<le> tau0"
    by (simp add: C_scaled_def eval_nat_numeral algebra_simps)
  have "tau0 \<le> d0 / 300 * (1 + uround)" using f q by (rule fl_pos_bounds)
  also have "\<dots> \<le> losLength rx * (1 + uround) ^ 3 / 300 * (1 + uround)"
    using h u by (intro mult_right_mono divide_right_mono) simp_all
  finally show "tau0 \<le> losLength rx / C_scaled * (1 + uround) ^ 4"
    by (simp add: C_scaled_def eval_nat_numeral algebra_simps)
qed

lemma nlosPath_parts:
  assumes "nlosPath rx idx b = Some q"
  obtains d1 d2 di k p where
    "segmentLength TX_POS b = Some d1" "segmentLength b rx = Some d2"
    "fadd d1 d2 = Some di" "fdivide di C_scaled = Some (delay q)"
    "fmul 1000 REFLECTION_COEFF = Some k" "fpow di GAMMA = Some p"
    "fdivide k p = Some (amplitude q)" "pathId q = ''NLOS '' @ showNat (idx + 1)"
  using assms unfolding nlosPath_def by (auto simp: bind_eq_Some_conv)

lemma nlos_length_bounds:
  assumes d1: "segmentLength TX_POS b = Some d1" and d2: "segmentLength b rx = Some d2"
      and di: "fadd d1 d2 = Some di"
  shows "nlosLength rx b * (1 - uround) ^ 4 \<le> di" and "di \<le> nlosLength rx b * (1 + uround) ^ 4"
proof -
  note u = uround_bounds
  define D1 where "D1 = sqrt ((pt_x b - pt_x TX_POS)\<^sup>2 + (pt_y b - pt_y TX_POS)\<^sup>2)"
  define D2 where "D2 = sqrt ((pt_x rx - pt_x b)\<^sup>2 + (pt_y rx - pt_y b)\<^sup>2)"
  have N: "nlosLength rx b = D1 + D2" by (simp add: nlosLength_def D1_def D2_def)
  have D: "0 \<le> D1" "0 \<le> D2" by (simp_all add: D1_def D2_def)
  have b1: "D1 * (1 - uround) ^ 3 \<le> d1" "d1 \<le> D1 * (1 + uround) ^ 3"
    unfolding D1_def using d1 by (rule segmentLength_bounds)+
  have b2: "D2 * (1 - uround) ^ 3 \<le> d2" "d2 \<le> D2 * (1 + uround) ^ 3"
    unfolding D2_def using d2 by (rule segmentLength_bounds)+
  have "0 \<le> D1 * (1 - uround) ^ 3" "0 \<le> D2 * (1 - uround) ^ 3" using D u by simp_all
  then have nn: "0 \<le> d1 + d2" using b1(1) b2(1) by linarith
  have f: "fl (d1 + d2) = Some di" using di by (simp add: fadd_def)
  have "(D1 + D2) * (1 - uround) ^ 3 * (1 - uround) \<le> (d1 + d2) * (1 - uround)"
    using b1(1) b2(1) u by (intro mult_right_mono) (simp_all add: algebra_simps)
  also have "\<dots> \<le> di" using f nn by (rule fl_pos_bounds)
  finally show "nlosLength rx b * (1 - uround) ^ 4 \<le> di"
    by (simp add: N eval_nat_numeral algebra_simps)
  have "di \<le> (d1 + d2) * (1 + uround)" using f nn by (rule fl_pos_bounds)
  also have "\<dots> \<le> (D1 + D2) * (1 + uround) ^ 3 * (1 + uround)"
    using b1(2) b2(2) u by (intro mult_right_mono) (simp_all add: algebra_simps)
  finally show "di \<le> nlosLength rx b * (1 + uround) ^ 4"
    by (simp add: N eval_nat_numeral algebra_simps)
qed

lemma nlos_delay_bounds:
  assumes d1: "segmentLength TX_POS b = Some d1" and d2: "segmentLength b rx = Some d2"
      and di: "fadd d1 d2 = Some di" and taui: "fdivide di C_scaled = Some taui"
  shows "nlosLength rx b / C_scaled * (1 - uround) ^ 5 \<le> taui"
    and "taui \<le> nlosLength rx b / C_scaled * (1 + uround) ^ 5"
proof -
  note u = uround_bounds
  note l = nlos_length_bounds(1) [OF d1 d2 di] and h = nlos_length_bounds(2) [OF d1 d2 di]
  have "0 \<le> nlosLength rx b" by (simp add: nlosLength_def)
  then have "0 \<le> nlosLength rx b * (1 - uround) ^ 4" using u by simp
  then have d: "0 \<le> di" using l by linarith
  have ft: "fl (di / 300) = Some taui" using taui by (simp add: fdivide_def C_scaled_def)
  have q: "0 \<le> di / 300" using d by simp
  have "nlosLength rx b * (1 - uround) ^ 4 / 300 * (1 - uround) \<le> di / 300 * (1 - uround)"
    using l u by (intro mult_right_mono divide_right_mono) simp_all
  also have "\<dots> \<le> taui" using ft q by (rule fl_pos_bounds)
  finally show "nlosLength rx b / C_scaled * (1 - uround) ^ 5 \<le> taui"
    by (simp add: C_scaled_def eval_nat_numeral algebra_simps)
  have "taui \<le> di / 300 * (1 + uround)" using ft q by (rule fl_pos_bounds)
  also have "\<dots> \<le> nlosLength rx b * (1 + uround) ^ 4 / 300 * (1 + uround)"
    using h u by (intro mult_right_mono divide_right_mono) simp_all
  finally show "taui \<le> nlosLength rx b / C_scaled * (1 + uround) ^ 5"
    by (simp add: C_scaled_def eval_nat_numeral algebra_simps)
qed

lemma delay_slack:
  assumes t0: "tau0 \<le> L0 / C_scaled * (1 + uround) ^ 4"
      and ti: "Li / C_scaled * (1 - uround) ^ 5 \<le> taui"
      and le: "L0 \<le> Li"
  shows "tau0 \<le> taui * delaySlack"
proof -
  note u = uround_bounds
  have p: "0 < (1 - uround) ^ 5" using u by simp
  have "Li / C_scaled \<le> taui / (1 - uround) ^ 5"
    using ti p by (simp add: pos_le_divide_eq)
  moreover have "L0 / C_scaled \<le> Li / C_scaled"
    using le by (simp add: C_scaled_def)
  ultimately have "L0 / C_scaled \<le> taui / (1 - uround) ^ 5" by linarith
  then have "L0 / C_scaled * (1 + uround) ^ 4 \<le> taui / (1 - uround) ^ 5 * (1 + uround) ^ 4"
    using u by (intro mult_right_mono) simp_all
  then show ?thesis using t0 by (simp add: delaySlack_def)
qed

lemma amplitude_order:
  fixes rx :: Point and b :: "'a Building_scheme"
  assumes d0: "segmentLength TX_POS rx = Some d0"
      and p0: "fpow d0 GAMMA = Some p0" and a0: "fdivide 1000 p0 = Some a0"
      and d1: "segmentLength TX_POS b = Some d1" and d2: "segmentLength b rx = Some d2"
      and di: "fadd d1 d2 = Some di"
      and k: "fmul 1000 REFLECTION_COEFF = Some k"
      and p: "fpow di GAMMA = Some p" and ai: "fdivide k p = Some ai"
  shows "ai < a0"
proof -
  note u = uround_bounds
  define lo where "lo = 1 - uround"
  define hi where "hi = 1 + uround"
  define L0 where "L0 = losLength rx"
  define Li where "Li = nlosLength rx b"
  have lo: "0 < lo" "lo \<le> 1" and hi: "0 < hi" "1 \<le> hi" using u by (simp_all add: lo_def hi_def)
  have le: "L0 \<le> Li" unfolding L0_def Li_def by (rule nlosLength_ge)
  have L0: "0 \<le> L0" by (simp add: L0_def losLength_def)
  have b0: "L0 * lo ^ 3 \<le> d0" "d0 \<le> L0 * hi ^ 3"
    unfolding L0_def lo_def hi_def using d0 by (rule los_length_bounds)+
  have fp0: "fl (d0 * d0) = Some p0" using p0 by (simp add: fpow_def GAMMA_def fmul_def)
  have p0nz: "p0 \<noteq> 0" using a0 by (auto simp: fdivide_def split: if_splits)
  have fa0: "fl (1000 / p0) = Some a0" using a0 p0nz by (simp add: fdivide_def)
  have "d0 \<noteq> 0" using fp0 p0nz by (auto simp: fl_def)
  moreover have "0 \<le> L0 * lo ^ 3" using L0 lo by simp
  ultimately have d0pos: "0 < d0" using b0(1) by linarith
  have L0pos: "0 < L0"
  proof (rule ccontr)
    assume "\<not> 0 < L0"
    then have "L0 = 0" using L0 by simp
    then show False using b0(2) d0pos by simp
  qed
  have sq0: "0 < d0 * d0" using d0pos by simp
  have p0pos: "0 < p0" using fp0 sq0 by (rule fl_pos)
  have "p0 \<le> d0 * d0 * hi" unfolding hi_def using fp0 sq0 by (intro fl_pos_bounds) simp_all
  moreover have "d0 * d0 \<le> (L0 * hi ^ 3) * (L0 * hi ^ 3)"
    using b0(2) d0pos by (intro mult_mono) simp_all
  then have "d0 * d0 * hi \<le> (L0 * hi ^ 3) * (L0 * hi ^ 3) * hi"
    using hi by (intro mult_right_mono) simp_all
  ultimately have p0up: "p0 \<le> L0\<^sup>2 * hi ^ 7"
    by (simp add: eval_nat_numeral algebra_simps)
  have P: "0 < L0\<^sup>2 * hi ^ 7" using L0pos hi by simp
  have "1000 / (L0\<^sup>2 * hi ^ 7) * lo \<le> 1000 / p0 * lo"
    using p0up p0pos lo by (intro mult_right_mono divide_left_mono) simp_all
  also have "\<dots> \<le> a0" unfolding lo_def using fa0 p0pos by (intro fl_pos_bounds) simp_all
  finally have a0low: "1000 / (L0\<^sup>2 * hi ^ 7) * lo \<le> a0" .
  have fk: "fl 500 = Some k" using k by (simp add: fmul_def REFLECTION_COEFF_def)
  have kpos: "0 < k" using fk by (rule fl_pos) simp
  have kup: "k \<le> 500 * hi" unfolding hi_def using fk by (intro fl_pos_bounds) simp_all
  have bi: "Li * lo ^ 4 \<le> di"
    unfolding Li_def lo_def using d1 d2 di by (rule nlos_length_bounds)
  have Lipos: "0 < Li" using L0pos le by linarith
  have low4: "0 < L0 * lo ^ 4" using L0pos lo by simp
  have "L0 * lo ^ 4 \<le> Li * lo ^ 4" using le lo by (intro mult_right_mono) simp_all
  then have dige: "L0 * lo ^ 4 \<le> di" using bi by linarith
  then have dipos: "0 < di" using low4 by linarith
  have fp: "fl (di * di) = Some p" using p by (simp add: fpow_def GAMMA_def fmul_def)
  have sqi: "0 < di * di" using dipos by simp
  have ppos: "0 < p" using fp sqi by (rule fl_pos)
  have "(L0 * lo ^ 4) * (L0 * lo ^ 4) \<le> di * di"
    using dige low4 by (intro mult_mono) simp_all
  then have "(L0 * lo ^ 4) * (L0 * lo ^ 4) * lo \<le> di * di * lo"
    using lo by (intro mult_right_mono) simp_all
  moreover have "di * di * lo \<le> p" unfolding lo_def using fp sqi by (intro fl_pos_bounds) simp_all
  ultimately have plow: "L0\<^sup>2 * lo ^ 9 \<le> p"
    by (simp add: eval_nat_numeral algebra_simps)
  have Q: "0 < L0\<^sup>2 * lo ^ 9" using L0pos lo by simp
  have pnz: "p \<noteq> 0" using ppos by simp
  have fai: "fl (k / p) = Some ai" using ai pnz by (simp add: fdivide_def)
  have kp: "0 \<le> k / p" using kpos ppos by simp
  have "ai \<le> k / p * hi" unfolding hi_def using fai kp by (rule fl_pos_bounds)
  also have "k / p \<le> 500 * hi / p" using kup ppos by (intro divide_right_mono) simp_all
  also have "500 * hi / p \<le> 500 * hi / (L0\<^sup>2 * lo ^ 9)"
    using plow Q hi by (intro divide_left_mono) (simp_all add: ppos)
  finally have aiup: "ai \<le> 500 * hi / (L0\<^sup>2 * lo ^ 9) * hi" using hi by simp
  have m: "hi ^ 9 < 2 * lo ^ 10" unfolding hi_def lo_def by (rule rounding_margin)
  define A where "A = L0\<^sup>2 * lo ^ 9 * hi ^ 7"
  have A: "0 < A" using L0pos lo hi by (simp add: A_def)
  have e1: "500 * hi / (L0\<^sup>2 * lo ^ 9) * hi = 500 * hi ^ 9 / A"
    using L0pos lo hi by (simp add: A_def field_simps eval_nat_numeral)
  have e2: "1000 / (L0\<^sup>2 * hi ^ 7) * lo = 500 * (2 * lo ^ 10) / A"
    using L0pos lo hi by (simp add: A_def field_simps eval_nat_numeral)
  have "500 * hi ^ 9 / A < 500 * (2 * lo ^ 10) / A"
    using m A by (intro divide_strict_right_mono mult_strict_left_mono) simp_all
  then show ?thesis using aiup a0low unfolding e1 e2 by linarith
qed

subsection \<open>Regular scenes return\<close>

lemma those_defined:
  assumes "\<And>x. x \<in> set xs \<Longrightarrow> \<exists>y. f x = Some y"
  shows "\<exists>ys. those (map f xs) = Some ys"
  using assms
proof (induction xs)
  case Nil
  then show ?case by simp
next
  case (Cons x xs)
  then obtain y ys where "f x = Some y" "those (map f xs) = Some ys" by (meson list.set_intros)
  then show ?case by simp
qed

lemma band_consts: "band 9 300" "band 9 500" "band 10 1000"
  by (simp_all add: band_def)

lemma square_defined:
  assumes g: "normalGap (a - b)"
  shows "\<exists>dx sx. fsub a b = Some dx \<and> fpow dx 2 = Some sx
           \<and> (if a = b then sx = 0 else band 803 sx)"
proof (cases "a = b")
  case True
  then show ?thesis by (simp add: fsub_def fpow_def fmul_def fl_zero)
next
  case False
  then have "band 400 \<bar>a - b\<bar>" using g by (simp add: normalGap_def)
  then obtain dx where dx: "fl (a - b) = Some dx" and b1: "band (Suc 400) \<bar>dx\<bar>"
    using fl_band_abs [of 400 "a - b"] by auto
  have "band (Suc 400 + Suc 400) (\<bar>dx\<bar> * \<bar>dx\<bar>)" using b1 b1 by (rule band_mult)
  then have "band 802 (dx * dx)" by (simp add: abs_mult_self_eq)
  then obtain sx where sx: "fl (dx * dx) = Some sx" and b2: "band (Suc 802) sx"
    using fl_band [of 802 "dx * dx"] by auto
  have "band 803 sx" using b2 by simp
  then show ?thesis using False dx sx by (simp add: fsub_def fpow_def fmul_def)
qed

lemma segmentLength_defined:
  assumes gx: "normalGap (pt_x q - pt_x p)" and gy: "normalGap (pt_y q - pt_y p)"
  shows "\<exists>d. segmentLength p q = Some d
           \<and> (if pt_x q = pt_x p \<and> pt_y q = pt_y p then d = 0 else band 404 d)"
proof -
  from square_defined [OF gx] obtain dx sx where
    dx: "fsub (pt_x q) (pt_x p) = Some dx" and sx: "fpow dx 2 = Some sx" and
    bx: "if pt_x q = pt_x p then sx = 0 else band 803 sx" by blast
  from square_defined [OF gy] obtain dy sy where
    dy: "fsub (pt_y q) (pt_y p) = Some dy" and sy: "fpow dy 2 = Some sy" and
    by': "if pt_y q = pt_y p then sy = 0 else band 803 sy" by blast
  have "\<exists>s. fadd sx sy = Some s
          \<and> (if pt_x q = pt_x p \<and> pt_y q = pt_y p then s = 0 else band (2 * 403) s)"
  proof (cases "pt_x q = pt_x p \<and> pt_y q = pt_y p")
    case True
    then show ?thesis using bx by' by (simp add: fadd_def fl_zero)
  next
    case False
    have "band 804 (sx + sy)"
    proof (cases "pt_x q = pt_x p")
      case True
      then have "sx = 0" "band 803 sy" using bx by' False by simp_all
      then show ?thesis using band_mono [of 803 sy 804] by simp
    next
      case nx: False
      show ?thesis
      proof (cases "pt_y q = pt_y p")
        case True
        then have "sy = 0" "band 803 sx" using bx by' nx by simp_all
        then show ?thesis using band_mono [of 803 sx 804] by simp
      next
        case ny: False
        then have "band 803 sx" "band 803 sy" using bx by' nx by simp_all
        then have "band (Suc 803) (sx + sy)" by (rule band_add)
        then show ?thesis by simp
      qed
    qed
    then obtain s where s: "fl (sx + sy) = Some s" and bs: "band (Suc 804) s"
      using fl_band [of 804 "sx + sy"] by auto
    have "band (2 * 403) s" using band_mono [OF bs, of "2 * 403"] by simp
    then show ?thesis using False s by (auto simp: fadd_def)
  qed
  then obtain s where s: "fadd sx sy = Some s" and
    bs: "if pt_x q = pt_x p \<and> pt_y q = pt_y p then s = 0 else band (2 * 403) s" by blast
  have "\<exists>d. fsqrt s = Some d
          \<and> (if pt_x q = pt_x p \<and> pt_y q = pt_y p then d = 0 else band 404 d)"
  proof (cases "pt_x q = pt_x p \<and> pt_y q = pt_y p")
    case True
    then show ?thesis using bs by (simp add: fsqrt_def fl_zero)
  next
    case False
    then have b: "band (2 * 403) s" using bs by (auto split: if_splits)
    then have "band 403 (sqrt s)" by (rule band_sqrt)
    then obtain d where d: "fl (sqrt s) = Some d" and bd: "band (Suc 403) d"
      using fl_band [of 403 "sqrt s"] by auto
    have "0 < s" using b by (rule band_pos)
    then show ?thesis using False d bd by (auto simp: fsqrt_def)
  qed
  then show ?thesis using dx sx dy sy s by (auto simp: segmentLength_def)
qed

lemma nlosPath_defined:
  fixes rx :: Point and b :: "'a Building_scheme"
  assumes ne: "pt_x rx \<noteq> pt_x TX_POS \<or> pt_y rx \<noteq> pt_y TX_POS"
      and g1: "normalGap (pt_x b - pt_x TX_POS)" "normalGap (pt_y b - pt_y TX_POS)"
      and g2: "normalGap (pt_x rx - pt_x b)" "normalGap (pt_y rx - pt_y b)"
  shows "\<exists>q. nlosPath rx idx b = Some q"
proof -
  define z1 where "z1 \<longleftrightarrow> pt_x b = pt_x TX_POS \<and> pt_y b = pt_y TX_POS"
  define z2 where "z2 \<longleftrightarrow> pt_x rx = pt_x b \<and> pt_y rx = pt_y b"
  from segmentLength_defined [OF g1] obtain d1 where
    d1: "segmentLength TX_POS b = Some d1" and b1: "if z1 then d1 = 0 else band 404 d1"
    unfolding z1_def by blast
  from segmentLength_defined [OF g2] obtain d2 where
    d2: "segmentLength b rx = Some d2" and b2: "if z2 then d2 = 0 else band 404 d2"
    unfolding z2_def by blast
  have nz: "\<not> (z1 \<and> z2)" using ne by (auto simp: z1_def z2_def)
  have "band 405 (d1 + d2)"
  proof (cases z1)
    case True
    then have "d1 = 0" "band 404 d2" using b1 b2 nz by simp_all
    then show ?thesis using band_mono [of 404 d2 405] by simp
  next
    case n1: False
    show ?thesis
    proof (cases z2)
      case True
      then have "d2 = 0" "band 404 d1" using b1 b2 n1 by simp_all
      then show ?thesis using band_mono [of 404 d1 405] by simp
    next
      case False
      then have "band 404 d1" "band 404 d2" using b1 b2 n1 by simp_all
      then have "band (Suc 404) (d1 + d2)" by (rule band_add)
      then show ?thesis by simp
    qed
  qed
  then obtain di where di: "fl (d1 + d2) = Some di" and bi: "band (Suc 405) di"
    using fl_band [of 405 "d1 + d2"] by auto
  have "band (Suc 405 + 9) (di / 300)" using bi band_consts(1) by (rule band_divide)
  then obtain taui where taui: "fl (di / 300) = Some taui"
    using fl_band [of "Suc 405 + 9" "di / 300"] by auto
  obtain k where k: "fl 500 = Some k" and bk: "band (Suc 9) k"
    using fl_band [of 9 500] band_consts(2) by auto
  have "band (Suc 405 + Suc 405) (di * di)" using bi bi by (rule band_mult)
  then obtain p where p: "fl (di * di) = Some p" and bp: "band (Suc (Suc 405 + Suc 405)) p"
    using fl_band [of "Suc 405 + Suc 405" "di * di"] by auto
  have pnz: "p \<noteq> 0" using band_pos [OF bp] by simp
  have "band (Suc 9 + Suc (Suc 405 + Suc 405)) (k / p)" using bk bp by (rule band_divide)
  then obtain ai where ai: "fl (k / p) = Some ai"
    using fl_band [of "Suc 9 + Suc (Suc 405 + Suc 405)" "k / p"] by auto
  show ?thesis
    using d1 d2 di taui k p pnz ai
    by (simp add: nlosPath_def fadd_def fdivide_def fmul_def fpow_def C_scaled_def GAMMA_def
        REFLECTION_COEFF_def)
qed

lemma multipathData_defined:
  assumes r: "regularScene rx buildings"
  shows "\<exists>paths. multipathData rx buildings = Some paths"
proof -
  from r have ne: "pt_x rx \<noteq> pt_x TX_POS \<or> pt_y rx \<noteq> pt_y TX_POS"
    and g: "normalGap (pt_x rx - pt_x TX_POS)" "normalGap (pt_y rx - pt_y TX_POS)"
    and gb: "\<And>b. b \<in> set buildings \<Longrightarrow>
         normalGap (pt_x b - pt_x TX_POS) \<and> normalGap (pt_y b - pt_y TX_POS)
         \<and> normalGap (pt_x rx - pt_x b) \<and> normalGap (pt_y rx - pt_y b)"
    by (simp_all add: regularScene_def list_all_iff)
  from segmentLength_defined [OF g] ne obtain d0 where
    d0: "segmentLength TX_POS rx = Some d0" and b0: "band 404 d0" by auto
  have "band (404 + 9) (d0 / 300)" using b0 band_consts(1) by (rule band_divide)
  then obtain tau0 where tau0: "fl (d0 / 300) = Some tau0"
    using fl_band [of "404 + 9" "d0 / 300"] by auto
  have "band (404 + 404) (d0 * d0)" using b0 b0 by (rule band_mult)
  then obtain p0 where p0: "fl (d0 * d0) = Some p0" and bp: "band (Suc (404 + 404)) p0"
    using fl_band [of "404 + 404" "d0 * d0"] by auto
  have pnz: "p0 \<noteq> 0" using band_pos [OF bp] by simp
  have "band (10 + Suc (404 + 404)) (1000 / p0)" using band_consts(3) bp by (rule band_divide)
  then obtain a0 where a0: "fl (1000 / p0) = Some a0"
    using fl_band [of "10 + Suc (404 + 404)" "1000 / p0"] by auto
  have "\<exists>y. (\<lambda>(idx, b). nlosPath rx idx b) ib = Some y" if "ib \<in> set (enumerate 0 buildings)" for ib
  proof -
    obtain i b where ib: "ib = (i, b)" by (cases ib)
    have "b \<in> set buildings" using that unfolding ib by (auto simp: in_set_enumerate_eq)
    then show ?thesis using nlosPath_defined [OF ne, of b i] gb [of b] by (simp add: ib)
  qed
  then obtain nlos where
    "those (map (\<lambda>(idx, b). nlosPath rx idx b) (enumerate 0 buildings)) = Some nlos"
    using those_defined [of "enumerate 0 buildings" "\<lambda>(idx, b). nlosPath rx idx b"] by blast
  then show ?thesis
    using d0 tau0 p0 pnz a0
    by (simp add: multipathData_def fdivide_def fpow_def fmul_def C_scaled_def GAMMA_def)
qed

subsection \<open>Two scenes, evaluated\<close>

text \<open>The receiver at \<open>x = 150\<close> with one building on the segment to the transmitter, and
  the receiver at \<open>x = 700\<close> with the initial buildings; each operation is evaluated with
  its rounding.\<close>

lemma fpow_val:
  fixes x y :: real and k :: nat
  assumes "y = 2" and "\<bar>x * x * 2 ^ k - of_int m\<bar> < 1 / 2" and "2 ^ 52 < m" and "m < 2 ^ 53"
      and "k \<le> 1000" and "v = of_int m / 2 ^ k"
  shows "fpow x y = Some v"
  using assms(1) fl_val [OF assms(2-6)] by (simp add: fpow_def fmul_def)

lemma multipath_near_los: "segmentLength TX_POS (rxPos 150) = Some (dbl 8970289992723185 45)"
proof -
  note cs = TX_POS_def rxPos_def ROAD_Y_mp_def
  have e1: "fsub 150 100 = Some 50"
    unfolding fsub_def fadd_def fmul_def
    by (rule fl_val [where m = 7036874417766400 and k = 47]) (simp_all add: dbl_def cs)
  have e2: "fpow 50 2 = Some 2500"
    by (rule fpow_val [where m = 5497558138880000 and k = 41]) (simp_all add: dbl_def cs)
  have e3: "fsub 350 100 = Some 250"
    unfolding fsub_def fadd_def fmul_def
    by (rule fl_val [where m = 8796093022208000 and k = 45]) (simp_all add: dbl_def cs)
  have e4: "fpow 250 2 = Some 62500"
    by (rule fpow_val [where m = 8589934592000000 and k = 37]) (simp_all add: dbl_def cs)
  have e5: "fadd 2500 62500 = Some 65000"
    unfolding fsub_def fadd_def fmul_def
    by (rule fl_val [where m = 8933531975680000 and k = 37]) (simp_all add: dbl_def cs)
  have e6: "fsqrt 65000 = Some (dbl 8970289992723185 45)"
    by (rule fsqrt_val [where m = 8970289992723185 and k = 45])
      (simp_all add: dbl_def cs power2_eq_square)
  show ?thesis
    by (simp add: segmentLength_def cs e1 e2 e3 e4 e5 e6)
qed

lemma multipath_near_nlos1:
  "nlosPath (rxPos 150) 0 \<lparr> pt_x = 105, pt_y = 125, building_id = 1 \<rparr> =
     Some \<lparr> pathId = ''NLOS 1'', delay = dbl 7654647460457117 53,
              amplitude = dbl 8868626958514209 60, color = ''#f43f5e'' \<rparr>"
proof -
  note cs = TX_POS_def rxPos_def ROAD_Y_mp_def C_scaled_def GAMMA_def REFLECTION_COEFF_def
  have e10: "fsub 105 100 = Some 5"
    unfolding fsub_def fadd_def fmul_def
    by (rule fl_val [where m = 5629499534213120 and k = 50]) (simp_all add: dbl_def cs)
  have e11: "fpow 5 2 = Some 25"
    by (rule fpow_val [where m = 7036874417766400 and k = 48]) (simp_all add: dbl_def cs)
  have e12: "fsub 125 100 = Some 25"
    unfolding fsub_def fadd_def fmul_def
    by (rule fl_val [where m = 7036874417766400 and k = 48]) (simp_all add: dbl_def cs)
  have e13: "fpow 25 2 = Some 625"
    by (rule fpow_val [where m = 5497558138880000 and k = 43]) (simp_all add: dbl_def cs)
  have e14: "fadd 25 625 = Some 650"
    unfolding fsub_def fadd_def fmul_def
    by (rule fl_val [where m = 5717460464435200 and k = 43]) (simp_all add: dbl_def cs)
  have e15: "fsqrt 650 = Some (dbl 7176231994178548 48)"
    by (rule fsqrt_val [where m = 7176231994178548 and k = 48])
      (simp_all add: dbl_def cs power2_eq_square)
  have e16: "fsub 150 105 = Some 45"
    unfolding fsub_def fadd_def fmul_def
    by (rule fl_val [where m = 6333186975989760 and k = 47]) (simp_all add: dbl_def cs)
  have e17: "fpow 45 2 = Some 2025"
    by (rule fpow_val [where m = 8906044184985600 and k = 42]) (simp_all add: dbl_def cs)
  have e18: "fsub 350 125 = Some 225"
    unfolding fsub_def fadd_def fmul_def
    by (rule fl_val [where m = 7916483719987200 and k = 45]) (simp_all add: dbl_def cs)
  have e19: "fpow 225 2 = Some 50625"
    by (rule fpow_val [where m = 6957847019520000 and k = 37]) (simp_all add: dbl_def cs)
  have e20: "fadd 2025 50625 = Some 52650"
    unfolding fsub_def fadd_def fmul_def
    by (rule fl_val [where m = 7236160900300800 and k = 37]) (simp_all add: dbl_def cs)
  have e21: "fsqrt 52650 = Some (dbl 8073260993450866 45)"
    by (rule fsqrt_val [where m = 8073260993450866 and k = 45])
      (simp_all add: dbl_def cs power2_eq_square)
  have e22: "fadd (dbl 7176231994178548 48) (dbl 8073260993450866 45) =
       Some (dbl 8970289992723184 45)"
    unfolding fsub_def fadd_def fmul_def
    by (rule fl_val_tie [where m = 8970289992723184 and k = 45]) (simp_all add: dbl_def cs)
  have e23: "fdivide (dbl 8970289992723184 45) C_scaled = Some (dbl 7654647460457117 53)"
    by (rule fdivide_val [where m = 7654647460457117 and k = 53]) (simp_all add: dbl_def cs)
  have e24: "fmul 1000 REFLECTION_COEFF = Some 500"
    unfolding fsub_def fadd_def fmul_def
    by (rule fl_val [where m = 8796093022208000 and k = 44]) (simp_all add: dbl_def cs)
  have e25: "fpow (dbl 8970289992723184 45) GAMMA = Some (dbl 8933531975679998 37)"
    by (rule fpow_val [where m = 8933531975679998 and k = 37]) (simp_all add: dbl_def cs)
  have e26: "fdivide 500 (dbl 8933531975679998 37) = Some (dbl 8868626958514209 60)"
    by (rule fdivide_val [where m = 8868626958514209 and k = 60]) (simp_all add: dbl_def cs)
  show ?thesis
    by (simp add: nlosPath_def segmentLength_def TX_POS_def rxPos_def ROAD_Y_mp_def showNat.simps
        e10 e11 e12 e13 e14 e15 e16 e17 e18 e19 e20 e21 e22 e23 e24 e25 e26)
qed

lemma multipath_near:
  "multipathData (rxPos 150) [nearBuilding] =
     Some [\<lparr> pathId = ''NLOS 1'', delay = dbl 7654647460457117 53,
              amplitude = dbl 8868626958514209 60, color = ''#f43f5e'' \<rparr>,
           \<lparr> pathId = ''LOS'', delay = dbl 7654647460457118 53,
              amplitude = dbl 8868626958514208 59, color = ''#10b981'' \<rparr>]"
proof -
  note cs = TX_POS_def rxPos_def ROAD_Y_mp_def C_scaled_def GAMMA_def REFLECTION_COEFF_def
  have e7: "fdivide (dbl 8970289992723185 45) C_scaled = Some (dbl 7654647460457118 53)"
    by (rule fdivide_val [where m = 7654647460457118 and k = 53]) (simp_all add: dbl_def cs)
  have e8: "fpow (dbl 8970289992723185 45) GAMMA = Some 65000"
    by (rule fpow_val [where m = 8933531975680000 and k = 37]) (simp_all add: dbl_def cs)
  have e9: "fdivide 1000 65000 = Some (dbl 8868626958514208 59)"
    by (rule fdivide_val [where m = 8868626958514208 and k = 59]) (simp_all add: dbl_def cs)
  have ord: "\<not> dbl 7654647460457118 53 \<le> dbl 7654647460457117 53"
       "dbl 7654647460457117 53 \<le> dbl 7654647460457118 53"
    by (simp_all add: dbl_def)
  show ?thesis
    by (simp add: multipathData_def multipath_near_los e7 e8 e9 multipath_near_nlos1
        nearBuilding_def ord)
qed

lemma multipath_initial_los: "segmentLength TX_POS (rxPos 700) = Some 650"
proof -
  note cs = TX_POS_def rxPos_def ROAD_Y_mp_def
  have e27: "fsub 700 100 = Some 600"
    unfolding fsub_def fadd_def fmul_def
    by (rule fl_val [where m = 5277655813324800 and k = 43]) (simp_all add: dbl_def cs)
  have e28: "fpow 600 2 = Some 360000"
    by (rule fpow_val [where m = 6184752906240000 and k = 34]) (simp_all add: dbl_def cs)
  have e29: "fsub 350 100 = Some 250"
    unfolding fsub_def fadd_def fmul_def
    by (rule fl_val [where m = 8796093022208000 and k = 45]) (simp_all add: dbl_def cs)
  have e30: "fpow 250 2 = Some 62500"
    by (rule fpow_val [where m = 8589934592000000 and k = 37]) (simp_all add: dbl_def cs)
  have e31: "fadd 360000 62500 = Some 422500"
    unfolding fsub_def fadd_def fmul_def
    by (rule fl_val [where m = 7258494730240000 and k = 34]) (simp_all add: dbl_def cs)
  have e32: "fsqrt 422500 = Some 650"
    by (rule fsqrt_val [where m = 5717460464435200 and k = 43])
      (simp_all add: dbl_def cs power2_eq_square)
  show ?thesis
    by (simp add: segmentLength_def cs e27 e28 e29 e30 e31 e32)
qed

lemma multipath_initial_nlos1:
  "nlosPath (rxPos 700) 0 \<lparr> pt_x = 300, pt_y = 200, building_id = 1 \<rparr> =
     Some \<lparr> pathId = ''NLOS 1'', delay = dbl 4884956825345871 51,
              amplitude = dbl 5444090354422907 62, color = ''#f43f5e'' \<rparr>"
proof -
  note cs = TX_POS_def rxPos_def ROAD_Y_mp_def C_scaled_def GAMMA_def REFLECTION_COEFF_def
  have e36: "fsub 300 100 = Some 200"
    unfolding fsub_def fadd_def fmul_def
    by (rule fl_val [where m = 7036874417766400 and k = 45]) (simp_all add: dbl_def cs)
  have e37: "fpow 200 2 = Some 40000"
    by (rule fpow_val [where m = 5497558138880000 and k = 37]) (simp_all add: dbl_def cs)
  have e38: "fsub 200 100 = Some 100"
    unfolding fsub_def fadd_def fmul_def
    by (rule fl_val [where m = 7036874417766400 and k = 46]) (simp_all add: dbl_def cs)
  have e39: "fpow 100 2 = Some 10000"
    by (rule fpow_val [where m = 5497558138880000 and k = 39]) (simp_all add: dbl_def cs)
  have e40: "fadd 40000 10000 = Some 50000"
    unfolding fsub_def fadd_def fmul_def
    by (rule fl_val [where m = 6871947673600000 and k = 37]) (simp_all add: dbl_def cs)
  have e41: "fsqrt 50000 = Some (dbl 7867464773627462 45)"
    by (rule fsqrt_val [where m = 7867464773627462 and k = 45])
      (simp_all add: dbl_def cs power2_eq_square)
  have e42: "fsub 700 300 = Some 400"
    unfolding fsub_def fadd_def fmul_def
    by (rule fl_val [where m = 7036874417766400 and k = 44]) (simp_all add: dbl_def cs)
  have e43: "fpow 400 2 = Some 160000"
    by (rule fpow_val [where m = 5497558138880000 and k = 35]) (simp_all add: dbl_def cs)
  have e44: "fsub 350 200 = Some 150"
    unfolding fsub_def fadd_def fmul_def
    by (rule fl_val [where m = 5277655813324800 and k = 45]) (simp_all add: dbl_def cs)
  have e45: "fpow 150 2 = Some 22500"
    by (rule fpow_val [where m = 6184752906240000 and k = 38]) (simp_all add: dbl_def cs)
  have e46: "fadd 160000 22500 = Some 182500"
    unfolding fsub_def fadd_def fmul_def
    by (rule fl_val [where m = 6270652252160000 and k = 35]) (simp_all add: dbl_def cs)
  have e47: "fsqrt 182500 = Some (dbl 7515385172590655 44)"
    by (rule fsqrt_val [where m = 7515385172590655 and k = 44])
      (simp_all add: dbl_def cs power2_eq_square)
  have e48: "fadd (dbl 7867464773627462 45) (dbl 7515385172590655 44) =
       Some (dbl 5724558779702193 43)"
    unfolding fsub_def fadd_def fmul_def
    by (rule fl_val [where m = 5724558779702193 and k = 43]) (simp_all add: dbl_def cs)
  have e49: "fdivide (dbl 5724558779702193 43) C_scaled = Some (dbl 4884956825345871 51)"
    by (rule fdivide_val [where m = 4884956825345871 and k = 51]) (simp_all add: dbl_def cs)
  have e50: "fmul 1000 REFLECTION_COEFF = Some 500"
    unfolding fsub_def fadd_def fmul_def
    by (rule fl_val [where m = 8796093022208000 and k = 44]) (simp_all add: dbl_def cs)
  have e51: "fpow (dbl 5724558779702193 43) GAMMA = Some (dbl 7276528984304744 34)"
    by (rule fpow_val [where m = 7276528984304744 and k = 34]) (simp_all add: dbl_def cs)
  have e52: "fdivide 500 (dbl 7276528984304744 34) = Some (dbl 5444090354422907 62)"
    by (rule fdivide_val [where m = 5444090354422907 and k = 62]) (simp_all add: dbl_def cs)
  show ?thesis
    by (simp add: nlosPath_def segmentLength_def TX_POS_def rxPos_def ROAD_Y_mp_def showNat.simps
        e36 e37 e38 e39 e40 e41 e42 e43 e44 e45 e46 e47 e48 e49 e50 e51 e52)
qed

lemma multipath_initial_nlos2:
  "nlosPath (rxPos 700) 1 \<lparr> pt_x = 500, pt_y = 150, building_id = 2 \<rparr> =
     Some \<lparr> pathId = ''NLOS 2'', delay = dbl 5148782306758777 51,
              amplitude = dbl 4900469874879851 62, color = ''#f43f5e'' \<rparr>"
proof -
  note cs = TX_POS_def rxPos_def ROAD_Y_mp_def C_scaled_def GAMMA_def REFLECTION_COEFF_def
  have e53: "fsub 500 100 = Some 400"
    unfolding fsub_def fadd_def fmul_def
    by (rule fl_val [where m = 7036874417766400 and k = 44]) (simp_all add: dbl_def cs)
  have e54: "fpow 400 2 = Some 160000"
    by (rule fpow_val [where m = 5497558138880000 and k = 35]) (simp_all add: dbl_def cs)
  have e55: "fsub 150 100 = Some 50"
    unfolding fsub_def fadd_def fmul_def
    by (rule fl_val [where m = 7036874417766400 and k = 47]) (simp_all add: dbl_def cs)
  have e56: "fpow 50 2 = Some 2500"
    by (rule fpow_val [where m = 5497558138880000 and k = 41]) (simp_all add: dbl_def cs)
  have e57: "fadd 160000 2500 = Some 162500"
    unfolding fsub_def fadd_def fmul_def
    by (rule fl_val [where m = 5583457484800000 and k = 35]) (simp_all add: dbl_def cs)
  have e58: "fsqrt 162500 = Some (dbl 7091636912305125 44)"
    by (rule fsqrt_val [where m = 7091636912305125 and k = 44])
      (simp_all add: dbl_def cs power2_eq_square)
  have e59: "fsub 700 500 = Some 200"
    unfolding fsub_def fadd_def fmul_def
    by (rule fl_val [where m = 7036874417766400 and k = 45]) (simp_all add: dbl_def cs)
  have e60: "fpow 200 2 = Some 40000"
    by (rule fpow_val [where m = 5497558138880000 and k = 37]) (simp_all add: dbl_def cs)
  have e61: "fsub 350 150 = Some 200"
    unfolding fsub_def fadd_def fmul_def
    by (rule fl_val [where m = 7036874417766400 and k = 45]) (simp_all add: dbl_def cs)
  have e62: "fpow 200 2 = Some 40000"
    by (rule fpow_val [where m = 5497558138880000 and k = 37]) (simp_all add: dbl_def cs)
  have e63: "fadd 40000 40000 = Some 80000"
    unfolding fsub_def fadd_def fmul_def
    by (rule fl_val [where m = 5497558138880000 and k = 36]) (simp_all add: dbl_def cs)
  have e64: "fsqrt 80000 = Some (dbl 4975821619160760 44)"
    by (rule fsqrt_val [where m = 4975821619160760 and k = 44])
      (simp_all add: dbl_def cs power2_eq_square)
  have e65: "fadd (dbl 7091636912305125 44) (dbl 4975821619160760 44) =
       Some (dbl 6033729265732942 43)"
    unfolding fsub_def fadd_def fmul_def
    by (rule fl_val_tie [where m = 6033729265732942 and k = 43]) (simp_all add: dbl_def cs)
  have e66: "fdivide (dbl 6033729265732942 43) C_scaled = Some (dbl 5148782306758777 51)"
    by (rule fdivide_val [where m = 5148782306758777 and k = 51]) (simp_all add: dbl_def cs)
  have e67: "fmul 1000 REFLECTION_COEFF = Some 500"
    unfolding fsub_def fadd_def fmul_def
    by (rule fl_val [where m = 8796093022208000 and k = 44]) (simp_all add: dbl_def cs)
  have e68: "fpow (dbl 6033729265732942 43) GAMMA = Some (dbl 8083731207122954 34)"
    by (rule fpow_val [where m = 8083731207122954 and k = 34]) (simp_all add: dbl_def cs)
  have e69: "fdivide 500 (dbl 8083731207122954 34) = Some (dbl 4900469874879851 62)"
    by (rule fdivide_val [where m = 4900469874879851 and k = 62]) (simp_all add: dbl_def cs)
  show ?thesis
    by (simp add: nlosPath_def segmentLength_def TX_POS_def rxPos_def ROAD_Y_mp_def showNat.simps
        e53 e54 e55 e56 e57 e58 e59 e60 e61 e62 e63 e64 e65 e66 e67 e68 e69)
qed

lemma multipath_initial_nlos3:
  "nlosPath (rxPos 700) 2 \<lparr> pt_x = 650, pt_y = 250, building_id = 3 \<rparr> =
     Some \<lparr> pathId = ''NLOS 3'', delay = dbl 5118274258864825 51,
              amplitude = dbl 4959063584031420 62, color = ''#f43f5e'' \<rparr>"
proof -
  note cs = TX_POS_def rxPos_def ROAD_Y_mp_def C_scaled_def GAMMA_def REFLECTION_COEFF_def
  have e70: "fsub 650 100 = Some 550"
    unfolding fsub_def fadd_def fmul_def
    by (rule fl_val [where m = 4837851162214400 and k = 43]) (simp_all add: dbl_def cs)
  have e71: "fpow 550 2 = Some 302500"
    by (rule fpow_val [where m = 5196910428160000 and k = 34]) (simp_all add: dbl_def cs)
  have e72: "fsub 250 100 = Some 150"
    unfolding fsub_def fadd_def fmul_def
    by (rule fl_val [where m = 5277655813324800 and k = 45]) (simp_all add: dbl_def cs)
  have e73: "fpow 150 2 = Some 22500"
    by (rule fpow_val [where m = 6184752906240000 and k = 38]) (simp_all add: dbl_def cs)
  have e74: "fadd 302500 22500 = Some 325000"
    unfolding fsub_def fadd_def fmul_def
    by (rule fl_val [where m = 5583457484800000 and k = 34]) (simp_all add: dbl_def cs)
  have e75: "fsqrt 325000 = Some (dbl 5014544550403784 43)"
    by (rule fsqrt_val [where m = 5014544550403784 and k = 43])
      (simp_all add: dbl_def cs power2_eq_square)
  have e76: "fsub 700 650 = Some 50"
    unfolding fsub_def fadd_def fmul_def
    by (rule fl_val [where m = 7036874417766400 and k = 47]) (simp_all add: dbl_def cs)
  have e77: "fpow 50 2 = Some 2500"
    by (rule fpow_val [where m = 5497558138880000 and k = 41]) (simp_all add: dbl_def cs)
  have e78: "fsub 350 250 = Some 100"
    unfolding fsub_def fadd_def fmul_def
    by (rule fl_val [where m = 7036874417766400 and k = 46]) (simp_all add: dbl_def cs)
  have e79: "fpow 100 2 = Some 10000"
    by (rule fpow_val [where m = 5497558138880000 and k = 39]) (simp_all add: dbl_def cs)
  have e80: "fadd 2500 10000 = Some 12500"
    unfolding fsub_def fadd_def fmul_def
    by (rule fl_val [where m = 6871947673600000 and k = 39]) (simp_all add: dbl_def cs)
  have e81: "fsqrt 12500 = Some (dbl 7867464773627462 46)"
    by (rule fsqrt_val [where m = 7867464773627462 and k = 46])
      (simp_all add: dbl_def cs power2_eq_square)
  have e82: "fadd (dbl 5014544550403784 43) (dbl 7867464773627462 46) =
       Some (dbl 5997977647107217 43)"
    unfolding fsub_def fadd_def fmul_def
    by (rule fl_val [where m = 5997977647107217 and k = 43]) (simp_all add: dbl_def cs)
  have e83: "fdivide (dbl 5997977647107217 43) C_scaled = Some (dbl 5118274258864825 51)"
    by (rule fdivide_val [where m = 5118274258864825 and k = 51]) (simp_all add: dbl_def cs)
  have e84: "fmul 1000 REFLECTION_COEFF = Some 500"
    unfolding fsub_def fadd_def fmul_def
    by (rule fl_val [where m = 8796093022208000 and k = 44]) (simp_all add: dbl_def cs)
  have e85: "fpow (dbl 5997977647107217 43) GAMMA = Some (dbl 7988218054854685 34)"
    by (rule fpow_val [where m = 7988218054854685 and k = 34]) (simp_all add: dbl_def cs)
  have e86: "fdivide 500 (dbl 7988218054854685 34) = Some (dbl 4959063584031420 62)"
    by (rule fdivide_val [where m = 4959063584031420 and k = 62]) (simp_all add: dbl_def cs)
  show ?thesis
    by (simp add: nlosPath_def segmentLength_def TX_POS_def rxPos_def ROAD_Y_mp_def showNat.simps
        e70 e71 e72 e73 e74 e75 e76 e77 e78 e79 e80 e81 e82 e83 e84 e85 e86)
qed

lemma multipath_initial:
  "multipathData (rxPos 700) initialBuildings =
     Some initialPaths"
proof -
  note cs = TX_POS_def rxPos_def ROAD_Y_mp_def C_scaled_def GAMMA_def REFLECTION_COEFF_def
  have e33: "fdivide 650 C_scaled = Some (dbl 4878899596318037 51)"
    by (rule fdivide_val [where m = 4878899596318037 and k = 51]) (simp_all add: dbl_def cs)
  have e34: "fpow 650 GAMMA = Some 422500"
    by (rule fpow_val [where m = 7258494730240000 and k = 34]) (simp_all add: dbl_def cs)
  have e35: "fdivide 1000 422500 = Some (dbl 5457616589854897 61)"
    by (rule fdivide_val [where m = 5457616589854897 and k = 61]) (simp_all add: dbl_def cs)
  have ord: "\<not> dbl 4884956825345871 51 \<le> dbl 4878899596318037 51"
       "\<not> dbl 5118274258864825 51 \<le> dbl 4878899596318037 51"
       "\<not> dbl 5118274258864825 51 \<le> dbl 4884956825345871 51"
       "\<not> dbl 5148782306758777 51 \<le> dbl 4878899596318037 51"
       "\<not> dbl 5148782306758777 51 \<le> dbl 4884956825345871 51"
       "\<not> dbl 5148782306758777 51 \<le> dbl 5118274258864825 51"
       "dbl 4878899596318037 51 \<le> dbl 4884956825345871 51"
       "dbl 4878899596318037 51 \<le> dbl 5118274258864825 51"
       "dbl 4878899596318037 51 \<le> dbl 5148782306758777 51"
       "dbl 4884956825345871 51 \<le> dbl 5118274258864825 51"
       "dbl 4884956825345871 51 \<le> dbl 5148782306758777 51"
       "dbl 5118274258864825 51 \<le> dbl 5148782306758777 51"
    by (simp_all add: dbl_def)
  show ?thesis
    by (simp add: multipathData_def multipath_initial_los e33 e34 e35 multipath_initial_nlos1
        multipath_initial_nlos2 [unfolded One_nat_def] multipath_initial_nlos3 [unfolded
        numeral_2_eq_2] initialBuildings_def initialPaths_def ord)
qed

lemma regular_initial: "regularScene (rxPos 700) initialBuildings"
  by (simp add: regularScene_def normalGap_def band_def rxPos_def ROAD_Y_mp_def TX_POS_def
      initialBuildings_def)

lemma regular_near: "regularScene (rxPos 150) [nearBuilding]"
  by (simp add: regularScene_def normalGap_def band_def rxPos_def ROAD_Y_mp_def TX_POS_def
      nearBuilding_def)

lemma collinear_near: "nlosLength (rxPos 150) nearBuilding = losLength (rxPos 150)"
proof -
  have a: "sqrt 650 = 5 * sqrt 26" using real_sqrt_mult [of 25 26] by simp
  have b: "sqrt 52650 = 45 * sqrt 26" using real_sqrt_mult [of 2025 26] by simp
  have c: "sqrt 65000 = 50 * sqrt 26" using real_sqrt_mult [of 2500 26] by simp
  show ?thesis
    by (simp add: nlosLength_def losLength_def rxPos_def ROAD_Y_mp_def TX_POS_def nearBuilding_def
        a b c)
qed

subsection \<open>The claim\<close>

text \<open>
  Claim C7, as amended. On a regular scene \<open>multipathData\<close> returns a list. Whenever it
  returns one, the list is the LOS entry and one entry per building, sorted ascending by
  the computed delay. The exact two-segment length over a building is at least the exact
  LOS length (triangle inequality), and each computed delay is the exact one up to four
  (LOS) or five (NLOS) roundings; so the LOS delay is at most an NLOS delay times
  \<open>delaySlack\<close>, and the LOS entry is the first of the list whenever no computed NLOS delay
  is below the computed LOS delay. Every NLOS amplitude is strictly below the LOS
  amplitude, roundings included.
\<close>

theorem multipath_order:
  "(regularScene rx buildings \<longrightarrow> (\<exists>paths. multipathData rx buildings = Some paths))
   \<and> (multipathData rx buildings = Some paths \<longrightarrow>
       (\<exists>los nlos. paths = sort_key delay (los # nlos)
          \<and> sorted (map delay paths)
          \<and> length nlos = length buildings
          \<and> pathId los = ''LOS''
          \<and> losLength rx / C_scaled * (1 - uround) ^ 4 \<le> delay los
          \<and> delay los \<le> losLength rx / C_scaled * (1 + uround) ^ 4
          \<and> (\<forall>i < length buildings.
                 pathId (nlos ! i) = ''NLOS '' @ showNat (i + 1)
               \<and> nlosLength rx (buildings ! i) / C_scaled * (1 - uround) ^ 5 \<le> delay (nlos ! i)
               \<and> delay (nlos ! i) \<le> nlosLength rx (buildings ! i) / C_scaled * (1 + uround) ^ 5
               \<and> losLength rx \<le> nlosLength rx (buildings ! i)
               \<and> delay los \<le> delay (nlos ! i) * delaySlack
               \<and> amplitude (nlos ! i) < amplitude los)
          \<and> ((\<forall>q \<in> set nlos. delay los \<le> delay q) \<longrightarrow> paths = los # sort_key delay nlos)))"
proof (intro conjI impI)
  assume "regularScene rx buildings"
  then show "\<exists>paths. multipathData rx buildings = Some paths" by (rule multipathData_defined)
next
  assume r: "multipathData rx buildings = Some paths"
  from r obtain d0 tau0 p0 a0 nlos where
    d0: "segmentLength TX_POS rx = Some d0" and tau0: "fdivide d0 C_scaled = Some tau0" and
    p0: "fpow d0 GAMMA = Some p0" and a0: "fdivide 1000 p0 = Some a0" and
    nl: "those (map (\<lambda>(idx, b). nlosPath rx idx b) (enumerate 0 buildings)) = Some nlos" and
    paths: "paths = sort_key delay
       (\<lparr> pathId = ''LOS'', delay = tau0, amplitude = a0, color = ''#10b981'' \<rparr> # nlos)"
    unfolding multipathData_def by (auto simp: bind_eq_Some_conv)
  define los where "los = \<lparr> pathId = ''LOS'', delay = tau0, amplitude = a0, color = ''#10b981'' \<rparr>"
  have len: "length nlos = length buildings"
    using those_Some_nth [OF nl] by simp
  have nth: "nlosPath rx i (buildings ! i) = Some (nlos ! i)" if "i < length buildings" for i
    using those_Some_nth [OF nl] that by (simp add: nth_enumerate_eq)
  have each: "pathId (nlos ! i) = ''NLOS '' @ showNat (i + 1)
          \<and> nlosLength rx (buildings ! i) / C_scaled * (1 - uround) ^ 5 \<le> delay (nlos ! i)
          \<and> delay (nlos ! i) \<le> nlosLength rx (buildings ! i) / C_scaled * (1 + uround) ^ 5
          \<and> losLength rx \<le> nlosLength rx (buildings ! i)
          \<and> delay los \<le> delay (nlos ! i) * delaySlack
          \<and> amplitude (nlos ! i) < amplitude los" if i: "i < length buildings" for i
  proof -
    from nth [OF i] obtain d1 d2 di k p where
      d1: "segmentLength TX_POS (buildings ! i) = Some d1" and
      d2: "segmentLength (buildings ! i) rx = Some d2" and
      di: "fadd d1 d2 = Some di" and taui: "fdivide di C_scaled = Some (delay (nlos ! i))" and
      k: "fmul 1000 REFLECTION_COEFF = Some k" and p: "fpow di GAMMA = Some p" and
      ai: "fdivide k p = Some (amplitude (nlos ! i))" and
      id: "pathId (nlos ! i) = ''NLOS '' @ showNat (i + 1)"
      by (rule nlosPath_parts)
    note lo = nlos_delay_bounds(1) [OF d1 d2 di taui]
    note hi = nlos_delay_bounds(2) [OF d1 d2 di taui]
    have ge: "losLength rx \<le> nlosLength rx (buildings ! i)" by (rule nlosLength_ge)
    have "tau0 \<le> delay (nlos ! i) * delaySlack"
      using los_delay_bounds(2) [OF d0 tau0] lo ge by (rule delay_slack)
    moreover have "amplitude (nlos ! i) < a0"
      using d0 p0 a0 d1 d2 di k p ai by (rule amplitude_order)
    ultimately show ?thesis using id lo hi ge by (simp add: los_def)
  qed
  have first: "paths = los # sort_key delay nlos" if "\<forall>q \<in> set nlos. delay los \<le> delay q"
    unfolding paths los_def [symmetric] using that by (rule sort_key_min_first)
  have "paths = sort_key delay (los # nlos)" by (simp only: paths los_def)
  moreover have "sorted (map delay paths)" unfolding paths by (rule sorted_sort_key)
  moreover have "pathId los = ''LOS''" by (simp add: los_def)
  moreover have "losLength rx / C_scaled * (1 - uround) ^ 4 \<le> delay los"
    using los_delay_bounds(1) [OF d0 tau0] by (simp add: los_def)
  moreover have "delay los \<le> losLength rx / C_scaled * (1 + uround) ^ 4"
    using los_delay_bounds(2) [OF d0 tau0] by (simp add: los_def)
  ultimately show "\<exists>los nlos. paths = sort_key delay (los # nlos)
          \<and> sorted (map delay paths)
          \<and> length nlos = length buildings
          \<and> pathId los = ''LOS''
          \<and> losLength rx / C_scaled * (1 - uround) ^ 4 \<le> delay los
          \<and> delay los \<le> losLength rx / C_scaled * (1 + uround) ^ 4
          \<and> (\<forall>i < length buildings.
                 pathId (nlos ! i) = ''NLOS '' @ showNat (i + 1)
               \<and> nlosLength rx (buildings ! i) / C_scaled * (1 - uround) ^ 5 \<le> delay (nlos ! i)
               \<and> delay (nlos ! i) \<le> nlosLength rx (buildings ! i) / C_scaled * (1 + uround) ^ 5
               \<and> losLength rx \<le> nlosLength rx (buildings ! i)
               \<and> delay los \<le> delay (nlos ! i) * delaySlack
               \<and> amplitude (nlos ! i) < amplitude los)
          \<and> ((\<forall>q \<in> set nlos. delay los \<le> delay q) \<longrightarrow> paths = los # sort_key delay nlos)"
    using len each first by blast
qed

theorem multipath_order_witness:
  "regularScene (rxPos 700) initialBuildings
   \<and> multipathData (rxPos 700) initialBuildings = Some initialPaths
   \<and> sorted (map delay initialPaths)
   \<and> (\<exists>los nlos. initialPaths = los # sort_key delay nlos
         \<and> length nlos = 3 \<and> pathId los = ''LOS''
         \<and> (\<forall>i < 3. delay los \<le> delay (nlos ! i) * delaySlack
                       \<and> amplitude (nlos ! i) < amplitude los))"
proof -
  from multipath_order [of "rxPos 700" initialBuildings initialPaths] multipath_initial
  obtain los nlos where
    p: "initialPaths = sort_key delay (los # nlos)" and s: "sorted (map delay initialPaths)" and
    l: "length nlos = length initialBuildings" and id: "pathId los = ''LOS''" and
    e: "\<forall>i < length initialBuildings.
           delay los \<le> delay (nlos ! i) * delaySlack \<and> amplitude (nlos ! i) < amplitude los" and
    f: "(\<forall>q \<in> set nlos. delay los \<le> delay q) \<longrightarrow> initialPaths = los # sort_key delay nlos"
    by blast
  have "set (sort_key delay (los # nlos)) = set (los # nlos)" by (rule set_sort)
  then have set: "set initialPaths = insert los (set nlos)" using p by simp
  have n: "length initialBuildings = 3" by (simp add: initialBuildings_def)
  have "los \<in> set initialPaths" using set by simp
  then have los: "los = hd initialPaths" using id by (auto simp: initialPaths_def)
  have "\<forall>q \<in> set initialPaths. delay (hd initialPaths) \<le> delay q"
    by (simp add: initialPaths_def dbl_def)
  then have "\<forall>q \<in> set nlos. delay los \<le> delay q" using set los by simp
  then have "initialPaths = los # sort_key delay nlos" using f by simp
  then show ?thesis using regular_initial multipath_initial s l id e n by auto
qed

text \<open>
  Claim C7 as stated fails: the LOS path need not have the minimal delay. For the receiver
  at \<open>(150, 350)\<close> and a building at \<open>(105, 125)\<close>, on the segment from the transmitter, the
  exact lengths are equal, the computed LOS length is \<open>254.95097567963924\<close> and the computed
  sum of the two segments \<open>254.9509756796392\<close>: the list starts with the NLOS entry, of delay
  \<open>0.8498365855987974\<close>, before the LOS entry of delay \<open>0.8498365855987975\<close>.
\<close>

theorem multipath_order_counterexample:
  "regularScene (rxPos 150) [nearBuilding]
   \<and> nlosLength (rxPos 150) nearBuilding = losLength (rxPos 150)
   \<and> multipathData (rxPos 150) [nearBuilding] =
       Some [\<lparr> pathId = ''NLOS 1'', delay = dbl 7654647460457117 53,
                amplitude = dbl 8868626958514209 60, color = ''#f43f5e'' \<rparr>,
             \<lparr> pathId = ''LOS'', delay = dbl 7654647460457118 53,
                amplitude = dbl 8868626958514208 59, color = ''#10b981'' \<rparr>]
   \<and> dbl 7654647460457117 53 < dbl 7654647460457118 53"
proof -
  have "dbl 7654647460457117 53 < dbl 7654647460457118 53" by (simp add: dbl_def)
  then show ?thesis using regular_near collinear_near multipath_near by simp
qed

section \<open>Signal recovery: the equalizer\<close>


lemma those_map_Some:
  assumes "\<And>x. x \<in> set xs \<Longrightarrow> f x = Some (g x)"
  shows "those (map f xs) = Some (map g xs)"
  using assms by (induction xs) simp_all

lemma H_denom_nonzero: "H_denom H \<noteq> 0"
proof (cases "cmod H < epsilon")
  case False
  then have "H \<noteq> 0" by (auto simp: epsilon_def)
  then show ?thesis using False by (simp add: H_denom_def)
next
  case True
  show ?thesis
  proof
    assume z: "H_denom H = 0"
    then have "Re H + epsilon = 0" and "Im H = 0"
      using True by (simp_all add: H_denom_def complex_eq_iff)
    then have "cmod H = epsilon"
      by (simp add: cmod_def epsilon_def) 
    then show False using True by simp
  qed
qed

lemma equalizerBin_Some: "equalizerBin H = Some (1 / H_denom H)"
  using H_denom_nonzero [of H] by (simp add: equalizerBin_def cdiv_def one_complex.code)

lemma performFFT_Inr:
  assumes "2 \<le> length signalYNoisy"
  shows "performFFT signalYNoisy signalH =
     Inr \<lparr> complexY = fft (map complex_of_real signalYNoisy),
            complexH = fft (map complex_of_real (hPadded (length signalYNoisy) signalH)),
            complexE = map (\<lambda>i. 1 / H_denom
                 (fft (map complex_of_real (hPadded (length signalYNoisy) signalH)) ! i))
               [0..<length signalYNoisy] \<rparr>"
proof -
  have "those (map (\<lambda>i. equalizerBin
            (fft (map complex_of_real (hPadded (length signalYNoisy) signalH)) ! i))
          [0..<length signalYNoisy])
        = Some (map (\<lambda>i. 1 / H_denom
            (fft (map complex_of_real (hPadded (length signalYNoisy) signalH)) ! i))
          [0..<length signalYNoisy])"
    by (rule those_map_Some) (rule equalizerBin_Some)
  moreover have "length signalYNoisy \<noteq> 0" "length signalYNoisy \<noteq> 1" using assms by linarith+
  ultimately show ?thesis unfolding performFFT_def Let_def by (simp only: if_False option.case)
qed

lemma performFFT_short:
  "length signalYNoisy = 0 \<Longrightarrow> performFFT signalYNoisy signalH = Inl RangeError"
  "length signalYNoisy = 1 \<Longrightarrow> performFFT signalYNoisy signalH = Inl TypeError"
  by (simp_all add: performFFT_def)

text \<open>
  Claim C4. For every frequency bin \<open>H\<close> the denominator of the equalizer is \<open>H\<close> with
  \<open>epsilon\<close> added to its real part when \<open>|H| < epsilon\<close>, and \<open>H\<close> otherwise; it is
  never zero, so the division returns the number \<open>1 / denominator\<close>; for every signal
  of at least two samples \<open>performFFT\<close> returns its spectra, and each entry of
  \<open>complexE\<close> is \<open>1 / denominator\<close> for the bin of \<open>complexH\<close> at its index.
\<close>

theorem equalizer_finite:
  "epsilon = 1 / 1000000
   \<and> H_denom H = (if cmod H < epsilon then Complex (Re H + epsilon) (Im H) else H)
   \<and> H_denom H \<noteq> 0
   \<and> equalizerBin H = Some (1 / H_denom H)
   \<and> (2 \<le> length signalYNoisy \<longrightarrow>
        (\<exists>sp. performFFT signalYNoisy signalH = Inr sp
           \<and> complexH sp = fft (map complex_of_real (hPadded (length signalYNoisy) signalH))
           \<and> length (complexE sp) = length signalYNoisy
           \<and> (\<forall>i < length signalYNoisy.
                 (if cmod (complexH sp ! i) < 1 / 1000000
                  then Complex (Re (complexH sp ! i) + 1 / 1000000) (Im (complexH sp ! i))
                  else complexH sp ! i) \<noteq> 0
                 \<and> complexE sp ! i
                    = 1 / (if cmod (complexH sp ! i) < 1 / 1000000
                           then Complex (Re (complexH sp ! i) + 1 / 1000000) (Im (complexH sp ! i))
                           else complexH sp ! i))))"
proof -
  have d: "(if cmod G < 1 / 1000000 then Complex (Re G + 1 / 1000000) (Im G) else G) = H_denom G"
    for G by (simp add: H_denom_def epsilon_def)
  have p: "2 \<le> length signalYNoisy \<longrightarrow>
        (\<exists>sp. performFFT signalYNoisy signalH = Inr sp
           \<and> complexH sp = fft (map complex_of_real (hPadded (length signalYNoisy) signalH))
           \<and> length (complexE sp) = length signalYNoisy
           \<and> (\<forall>i < length signalYNoisy.
                 H_denom (complexH sp ! i) \<noteq> 0
                 \<and> complexE sp ! i = 1 / H_denom (complexH sp ! i)))"
    by (auto simp: performFFT_Inr H_denom_nonzero)
  show ?thesis
    unfolding d using p H_denom_nonzero [of H] equalizerBin_Some [of H]
    by (simp add: epsilon_def) (simp add: H_denom_def epsilon_def)
qed

theorem equalizer_finite_witness:
  "equalizerBin 0 = Some 1000000 \<and> equalizerBin 2 = Some (1 / 2)
   \<and> (\<exists>sp. performFFT [1, 2] [1] = Inr sp \<and> complexH sp = [1, 1] \<and> complexE sp = [1, 1])"
proof -
  have c: "Complex (1 / 1000000) 0 = 1 / 1000000" by (simp add: complex_eq_iff)
  have d0: "H_denom 0 = 1 / 1000000" by (simp add: H_denom_def epsilon_def c)
  have d2: "H_denom 2 = 2" by (simp add: H_denom_def epsilon_def)
  have l: "2 \<le> length [1, 2 :: real]" by simp
  have f: "fft (map complex_of_real (hPadded (length [1, 2 :: real]) [1])) = [1, 1]"
    by (simp add: hPadded_def fft_def Let_def eval_nat_numeral)
  obtain sp where sp: "performFFT [1, 2] [1] = Inr sp"
      and H: "complexH sp = [1, 1]" and len: "length (complexE sp) = length [1, 2 :: real]"
      and E: "\<forall>i < length [1, 2 :: real]. complexE sp ! i
                    = 1 / (if cmod (complexH sp ! i) < 1 / 1000000
                           then Complex (Re (complexH sp ! i) + 1 / 1000000) (Im (complexH sp ! i))
                           else complexH sp ! i)"
    using equalizer_finite [of 0 "[1, 2]" "[1]"] l unfolding f by blast
  have "complexE sp ! 0 = 1" "complexE sp ! 1 = 1"
    using E [rule_format, of 0] E [rule_format, of 1] by (simp_all add: H)
  then have "complexE sp = [1, 1]"
    using len by (intro nth_equalityI) (auto simp: less_Suc_eq numeral_2_eq_2)
  then show ?thesis
    using sp H equalizer_finite [of 0 "[1, 2]" "[1]"] equalizer_finite [of 2 "[1, 2]" "[1]"]
    by (simp add: d0 d2)
qed

subsection \<open>The discrete Fourier transform\<close>

lemma twiddle_add:
  "cis (- (2 * pi * real k * real (a + j) / real N))
   = cis (- (2 * pi * real k * real a / real N)) * cis (- (2 * pi * real k * real j / real N))"
  by (simp add: cis_mult algebra_simps add_divide_distrib)

lemma root_of_unity_sum:
  fixes N :: nat and d :: int
  assumes N: "0 < N" and d: "d \<noteq> 0" "\<bar>d\<bar> < int N"
  shows "(\<Sum>k<N. cis (2 * pi * real k * real_of_int d / real N)) = 0"
proof -
  define r where "r = cis (2 * pi * real_of_int d / real N)"
  have pw: "cis (2 * pi * real k * real_of_int d / real N) = r ^ k" for k
    unfolding r_def by (simp add: DeMoivre algebra_simps)
  have rN: "r ^ N = 1"
  proof -
    have "r ^ N = cis (2 * pi * real_of_int d)"
      unfolding r_def using N by (simp add: DeMoivre)
    then show ?thesis by simp
  qed
  have r1: "r \<noteq> 1"
  proof
    assume "r = 1"
    then have "cos (2 * pi * real_of_int d / real N) = 1"
      unfolding r_def by (simp add: complex_eq_iff)
    then obtain z :: int where z: "2 * pi * real_of_int d / real N = real_of_int z * 2 * pi"
      unfolding cos_one_2pi_int by blast
    then have "(2 * pi) * (real_of_int d / real N) = (2 * pi) * real_of_int z"
      by (simp add: mult.commute)
    then have "real_of_int d / real N = real_of_int z"
      unfolding mult_cancel_left using pi_gt_zero by auto
    then have "real_of_int d = real_of_int z * real N" using N by (simp add: field_simps)
    then have "real_of_int d = real_of_int (z * int N)" by simp
    then have e: "d = z * int N" by (simp only: of_int_eq_iff)
    have "z \<noteq> 0" using e d(1) by auto
    then have "1 \<le> \<bar>z\<bar>" by linarith
    then have "1 * int N \<le> \<bar>z\<bar> * int N" by (intro mult_right_mono) auto
    then have "int N \<le> \<bar>z * int N\<bar>" by (simp add: abs_mult)
    then show False using d(2) e by simp
  qed
  have "(\<Sum>k<N. r ^ k) = (r ^ N - 1) / (r - 1)" by (rule geometric_sum [OF r1])
  then show ?thesis by (simp add: pw rN)
qed


lemma twiddle_orthogonal:
  fixes N a t :: nat
  assumes N: "0 < N" and a: "a < N" and t: "t < N"
  shows "(\<Sum>k<N. cis (- (2 * pi * real k * real a / real N)) * cis (2 * pi * real k * real t / real N))
         = (if a = t then of_nat N else 0)"
proof (cases "a = t")
  case True
  then show ?thesis by (simp add: cis_mult)
next
  case False
  define d :: int where "d = int t - int a"
  have d: "d \<noteq> 0" "\<bar>d\<bar> < int N" using False a t by (auto simp: d_def)
  have "cis (- (2 * pi * real k * real a / real N)) * cis (2 * pi * real k * real t / real N)
        = cis (2 * pi * real k * real_of_int d / real N)" for k
    by (simp add: cis_mult d_def algebra_simps diff_divide_distrib)
  then show ?thesis using False root_of_unity_sum [OF N d] by simp
qed

lemma dft_inversion:
  fixes c :: "nat \<Rightarrow> complex" and n N t :: nat
  assumes nN: "n \<le> N" and t: "t < N"
  shows "(\<Sum>k<N. (\<Sum>a<n. c a * cis (- (2 * pi * real k * real a / real N)))
                * cis (2 * pi * real k * real t / real N)) / of_nat N
         = (if t < n then c t else 0)"
proof -
  have N: "0 < N" using t by simp
  have "(\<Sum>k<N. (\<Sum>a<n. c a * cis (- (2 * pi * real k * real a / real N)))
                * cis (2 * pi * real k * real t / real N))
        = (\<Sum>k<N. \<Sum>a<n. c a * (cis (- (2 * pi * real k * real a / real N))
                * cis (2 * pi * real k * real t / real N)))"
    by (simp add: sum_distrib_right mult.assoc)
  also have "\<dots> = (\<Sum>a<n. \<Sum>k<N. c a * (cis (- (2 * pi * real k * real a / real N))
                * cis (2 * pi * real k * real t / real N)))"
    by (rule sum.swap)
  also have "\<dots> = (\<Sum>a<n. c a * (if a = t then of_nat N else 0))"
  proof (rule sum.cong)
    fix a assume "a \<in> {..<n}"
    then have a: "a < N" using nN by simp
    show "(\<Sum>k<N. c a * (cis (- (2 * pi * real k * real a / real N))
                * cis (2 * pi * real k * real t / real N)))
          = c a * (if a = t then of_nat N else 0)"
      unfolding sum_distrib_left [symmetric] twiddle_orthogonal [OF N a t] ..
  qed simp
  also have "\<dots> = (\<Sum>a<n. if a = t then c a * of_nat N else 0)"
    by (rule sum.cong) simp_all
  also have "\<dots> = (if t < n then c t * of_nat N else 0)"
    by (simp add: sum.delta')
  finally show ?thesis using N by simp
qed

lemma conv_sum_product:
  fixes xf hf W :: "nat \<Rightarrow> complex" and n m :: nat
  assumes W: "\<And>a j. W (a + j) = W a * W j" and m: "0 < m"
  shows "(\<Sum>i<n + m - 1. \<Sum>j<m. if j \<le> i \<and> i - j < n then xf (i - j) * hf j * W i else 0)
         = (\<Sum>a<n. xf a * W a) * (\<Sum>j<m. hf j * W j)"
proof -
  have inner: "(\<Sum>i<n + m - 1. if j \<le> i \<and> i - j < n then xf (i - j) * hf j * W i else 0)
               = (\<Sum>a<n. xf a * W a) * (hf j * W j)" if j: "j < m" for j
  proof -
    have "(\<Sum>i<n + m - 1. if j \<le> i \<and> i - j < n then xf (i - j) * hf j * W i else 0)
          = (\<Sum>i\<in>{0 + j..<n + j}. xf (i - j) * hf j * W i)"
      by (rule sum.mono_neutral_cong_right) (use j in auto)
    also have "\<dots> = (\<Sum>a\<in>{0..<n}. xf (a + j - j) * hf j * W (a + j))"
      by (rule sum.shift_bounds_nat_ivl)
    also have "\<dots> = (\<Sum>a<n. (xf a * W a) * (hf j * W j))"
      by (simp add: W atLeast0LessThan mult_ac)
    finally show ?thesis by (simp add: sum_distrib_right)
  qed
  have "(\<Sum>i<n + m - 1. \<Sum>j<m. if j \<le> i \<and> i - j < n then xf (i - j) * hf j * W i else 0)
        = (\<Sum>j<m. \<Sum>i<n + m - 1. if j \<le> i \<and> i - j < n then xf (i - j) * hf j * W i else 0)"
    by (rule sum.swap)
  also have "\<dots> = (\<Sum>j<m. (\<Sum>a<n. xf a * W a) * (hf j * W j))"
  proof (rule sum.cong [OF refl])
    fix j assume "j \<in> {..<m}"
    then have "j < m" by simp
    then show "(\<Sum>i<n + m - 1. if j \<le> i \<and> i - j < n then xf (i - j) * hf j * W i else 0)
               = (\<Sum>a<n. xf a * W a) * (hf j * W j)"
      by (rule inner)
  qed
  finally show ?thesis by (simp add: sum_distrib_left)
qed

subsection \<open>The stages on their own\<close>

lemma foldl_cond_sum:
  fixes g :: "nat \<Rightarrow> real"
  shows "foldl (\<lambda>acc j. if P j then acc + g j else acc) a [0..<m]
         = a + (\<Sum>j<m. if P j then g j else 0)"
  by (induction m) simp_all

lemma convolveAt_sum:
  "convolveAt x h i
   = (\<Sum>j<length h. if j \<le> i \<and> i - j < length x then x ! (i - j) * h ! j else 0)"
  unfolding convolveAt_def by (simp add: foldl_cond_sum)

lemma length_fft [simp]: "length (fft xs) = length xs"
  by (simp add: fft_def Let_def)

lemma fft_nth:
  "k < length xs \<Longrightarrow>
   fft xs ! k = (\<Sum>n<length xs. xs ! n * cis (- (2 * pi * real k * real n / real (length xs))))"
  by (simp add: fft_def Let_def)

lemma length_ifft [simp]: "length (ifft xs) = length xs"
  by (simp add: ifft_def Let_def)

lemma ifft_nth:
  "t < length Xs \<Longrightarrow>
   ifft Xs ! t = (\<Sum>k<length Xs. Xs ! k * cis (2 * pi * real k * real t / real (length Xs)))
                 / of_nat (length Xs)"
  by (simp add: ifft_def Let_def)

lemma convolveSignals_noiseless:
  assumes len: "1 \<le> length x + length h"
      and draws: "\<forall>i < length x + length h - 1. 0 < fst (draws i) \<and> fst (draws i) \<le> 1"
  shows "convolveSignals x h 0 draws
         = Inr (map (convolveAt x h) [0..<length x + length h - 1],
                map (convolveAt x h) [0..<length x + length h - 1])"
proof -
  define M where "M = length x + length h - 1"
  define y where "y = map (convolveAt x h) [0..<M]"
  have "those (map (\<lambda>i. case boxMuller (draws i) of
                            None \<Rightarrow> None
                          | Some z \<Rightarrow> Some (y ! i + z * 0)) [0..<M])
        = Some (map (\<lambda>i. y ! i) [0..<M])"
    by (rule those_map_Some) (use draws in \<open>simp add: boxMuller_def M_def\<close>)
  moreover have "map (\<lambda>i. y ! i) [0..<M] = y"
    unfolding y_def by (rule nth_equalityI) simp_all
  moreover have "\<not> length x + length h < 1" using len by linarith
  ultimately show ?thesis
    unfolding convolveSignals_def Let_def M_def [symmetric] y_def [symmetric]
    by (simp only: if_False option.case)
qed

lemma fft_convolution:
  assumes h: "0 < length h" and k: "k < length x + length h - 1"
  shows "fft (map complex_of_real (map (convolveAt x h) [0..<length x + length h - 1])) ! k
         = spectrumAt (length x + length h - 1) x k * spectrumAt (length x + length h - 1) h k"
proof -
  define N where "N = length x + length h - 1"
  define W where "W i = cis (- (2 * pi * real k * real i / real N))" for i
  have W: "W (a + j) = W a * W j" for a j unfolding W_def by (rule twiddle_add)
  have "fft (map complex_of_real (map (convolveAt x h) [0..<N])) ! k
        = (\<Sum>i<N. complex_of_real (convolveAt x h i) * W i)"
    using k by (simp add: fft_nth N_def W_def)
  also have "\<dots> = (\<Sum>i<N. \<Sum>j<length h. if j \<le> i \<and> i - j < length x
                 then complex_of_real (x ! (i - j)) * complex_of_real (h ! j) * W i else 0)"
  proof (rule sum.cong [OF refl])
    fix i
    have "complex_of_real (convolveAt x h i) * W i
          = (\<Sum>j<length h. complex_of_real (if j \<le> i \<and> i - j < length x
                  then x ! (i - j) * h ! j else 0) * W i)"
      by (simp add: convolveAt_sum sum_distrib_right)
    also have "\<dots> = (\<Sum>j<length h. if j \<le> i \<and> i - j < length x
                 then complex_of_real (x ! (i - j)) * complex_of_real (h ! j) * W i else 0)"
      by (rule sum.cong [OF refl]) simp
    finally show "complex_of_real (convolveAt x h i) * W i
          = (\<Sum>j<length h. if j \<le> i \<and> i - j < length x
                 then complex_of_real (x ! (i - j)) * complex_of_real (h ! j) * W i else 0)" .
  qed
  also have "\<dots> = (\<Sum>a<length x. complex_of_real (x ! a) * W a)
                   * (\<Sum>j<length h. complex_of_real (h ! j) * W j)"
    unfolding N_def by (rule conv_sum_product [OF W h])
  finally show ?thesis by (simp add: spectrumAt_def N_def W_def)
qed

lemma fft_hPadded:
  assumes le: "length h \<le> N" and k: "k < N"
  shows "fft (map complex_of_real (hPadded N h)) ! k = spectrumAt N h k"
proof -
  have len: "length (hPadded N h) = N" using le by (simp add: hPadded_def)
  have "fft (map complex_of_real (hPadded N h)) ! k
        = (\<Sum>a<N. complex_of_real (hPadded N h ! a) * cis (- (2 * pi * real k * real a / real N)))"
    using k by (simp add: fft_nth len)
  also have "\<dots> = (\<Sum>a<length h. complex_of_real (h ! a) * cis (- (2 * pi * real k * real a / real N)))"
    by (rule sum.mono_neutral_cong_right) (use le in \<open>auto simp: hPadded_def nth_append\<close>)
  finally show ?thesis by (simp add: spectrumAt_def)
qed

lemma concat_replicate_length:
  "length (concat (map (\<lambda>b. replicate s (f b)) bs)) = length bs * s"
  by (induction bs) simp_all

lemma concat_replicate_nth:
  "i < length bs \<Longrightarrow> r < s \<Longrightarrow> concat (map (\<lambda>b. replicate s (f b)) bs) ! (i * s + r) = f (bs ! i)"
proof (induction bs arbitrary: i)
  case Nil
  then show ?case by simp
next
  case (Cons b bs)
  show ?case
  proof (cases i)
    case 0
    then show ?thesis using Cons.prems by (simp add: nth_append)
  next
    case (Suc i')
    then have "i' < length bs" using Cons.prems by simp
    then have "concat (map (\<lambda>b. replicate s (f b)) bs) ! (i' * s + r) = f (bs ! i')"
      using Cons.prems(2) by (rule Cons.IH)
    moreover have "i * s + r = s + (i' * s + r)" using Suc by simp
    ultimately show ?thesis using Suc by (simp add: nth_append)
  qed
qed

lemma generateSignal_eq:
  "generateSignal inputBits sps
   = concat (map (\<lambda>b. replicate sps (if b = CHR ''1'' then 1 else - 1)) inputBits)
     @ replicate (sps * 2) 0"
proof -
  have "map (\<lambda>bit. replicate sps (if bit = (1::nat) then (1::real) else - 1))
          (map (\<lambda>b. if b = CHR ''1'' then (1::nat) else 0) inputBits)
        = map (\<lambda>b. replicate sps (if b = CHR ''1'' then 1 else - 1)) inputBits"
    by (induction inputBits) simp_all
  then show ?thesis unfolding generateSignal_def Let_def by (simp only:)
qed

lemma length_generateSignal:
  "length (generateSignal inputBits sps) = (length inputBits + 2) * sps"
  unfolding generateSignal_eq by (simp add: concat_replicate_length algebra_simps)

lemma generateSignal_mid:
  assumes i: "i < length inputBits" and sps: "0 < sps"
  shows "generateSignal inputBits sps ! (i * sps + sps div 2)
         = (if inputBits ! i = CHR ''1'' then 1 else - 1)"
proof -
  have r: "sps div 2 < sps" using sps by simp
  have lt: "i * sps + sps div 2 < length inputBits * sps"
  proof -
    have "i * sps + sps div 2 < i * sps + sps" using r by simp
    also have "\<dots> = Suc i * sps" by simp
    also have "\<dots> \<le> length inputBits * sps" using i by (intro mult_le_mono1) simp
    finally show ?thesis .
  qed
  have "generateSignal inputBits sps ! (i * sps + sps div 2)
        = concat (map (\<lambda>b. replicate sps (if b = CHR ''1'' then (1::real) else - 1)) inputBits)
            ! (i * sps + sps div 2)"
    unfolding generateSignal_eq using lt by (simp add: nth_append concat_replicate_length)
  also have "\<dots> = (if inputBits ! i = CHR ''1'' then 1 else - 1)"
    using i r by (rule concat_replicate_nth)
  finally show ?thesis .
qed

lemma decodeBits_exact:
  assumes bits: "set inputBits \<subseteq> {CHR ''0'', CHR ''1''}" and sps: "0 < sps"
      and len: "length (generateSignal inputBits sps) \<le> length xr"
      and same: "\<And>t. t < length (generateSignal inputBits sps) \<Longrightarrow> xr ! t = generateSignal inputBits sps ! t"
  shows "decodeBits xr (length inputBits) sps = inputBits"
proof -
  have step: "(let idx = i * sps + sps div 2
               in if idx < length xr then (if xr ! idx > 0 then ''1'' else ''0'') else [])
              = [inputBits ! i]" if i: "i < length inputBits" for i
  proof -
    have "i * sps + sps div 2 < i * sps + sps" using sps by simp
    also have "\<dots> = Suc i * sps" by simp
    also have "\<dots> \<le> length inputBits * sps" using i by (intro mult_le_mono1) simp
    also have "\<dots> \<le> length (generateSignal inputBits sps)"
      by (simp add: length_generateSignal)
    finally have lt: "i * sps + sps div 2 < length (generateSignal inputBits sps)" .
    have v: "xr ! (i * sps + sps div 2) = (if inputBits ! i = CHR ''1'' then 1 else - 1)"
      using same [OF lt] generateSignal_mid [OF i sps] by simp
    have c: "inputBits ! i = CHR ''0'' \<or> inputBits ! i = CHR ''1''"
      using bits i by (metis insert_iff nth_mem singletonD subsetD)
    show ?thesis using lt len v c by (auto simp: Let_def)
  qed
  have "decodeBits xr (length inputBits) sps
        = concat (map (\<lambda>i. [inputBits ! i]) [0..<length inputBits])"
    unfolding decodeBits_def by (rule arg_cong [where f = concat], rule map_cong) (simp_all add: step)
  also have "\<dots> = map (\<lambda>i. inputBits ! i) [0..<length inputBits]"
    by (induction "length inputBits" arbitrary: inputBits) (simp_all add: concat_map_singleton)
  also have "\<dots> = inputBits" by (rule map_nth)
  finally show ?thesis .
qed

subsection \<open>Round trip without noise\<close>

lemma H_denom_large: "epsilon \<le> cmod H \<Longrightarrow> H_denom H = H"
  by (simp add: H_denom_def)

lemma recovered_signal:
  fixes x h :: "real list"
  defines "N \<equiv> length x + length h - 1"
  assumes x: "0 < length x" and h: "0 < length h"
      and inv: "\<forall>k<N. epsilon \<le> cmod (fft (map complex_of_real (hPadded N h)) ! k)"
      and sp: "performFFT (map (convolveAt x h) [0..<N]) h = Inr sp"
      and t: "t < N"
  shows "map Re (ifft (map (\<lambda>i. complexY sp ! i * complexE sp ! i) [0..<length (complexY sp)])) ! t
         = (if t < length x then x ! t else 0)"
proof -
  have hN: "length h \<le> N" and xN: "length x \<le> N" using x h unfolding N_def by linarith+
  have N2: "2 \<le> length (map (convolveAt x h) [0..<N])"
  proof (rule ccontr)
    assume "\<not> 2 \<le> length (map (convolveAt x h) [0..<N])"
    then have "length (map (convolveAt x h) [0..<N]) = 0 \<or> length (map (convolveAt x h) [0..<N]) = 1"
      by linarith
    then show False using sp performFFT_short [of "map (convolveAt x h) [0..<N]" h] by auto
  qed
  have Y: "complexY sp = fft (map complex_of_real (map (convolveAt x h) [0..<N]))"
    and E: "complexE sp = map (\<lambda>i. 1 / H_denom (fft (map complex_of_real (hPadded N h)) ! i)) [0..<N]"
    using sp unfolding performFFT_Inr [OF N2] by auto
  have lenY: "length (complexY sp) = N" by (simp add: Y)
  have bin: "complexY sp ! k * complexE sp ! k = spectrumAt N x k" if k: "k < N" for k
  proof -
    have Hk: "fft (map complex_of_real (hPadded N h)) ! k = spectrumAt N h k"
      using hN k by (rule fft_hPadded)
    have big: "epsilon \<le> cmod (spectrumAt N h k)" using inv k Hk by auto
    then have nz: "spectrumAt N h k \<noteq> 0" by (auto simp: epsilon_def)
    have "complexY sp ! k = spectrumAt N x k * spectrumAt N h k"
      unfolding Y N_def by (rule fft_convolution [OF h]) (use k in \<open>simp add: N_def\<close>)
    moreover have "complexE sp ! k = 1 / spectrumAt N h k"
      using k by (simp add: E Hk H_denom_large [OF big])
    ultimately show ?thesis using nz by simp
  qed
  have Xest: "map (\<lambda>i. complexY sp ! i * complexE sp ! i) [0..<length (complexY sp)]
              = map (spectrumAt N x) [0..<N]"
    unfolding lenY by (rule map_cong) (simp_all add: bin)
  have "ifft (map (spectrumAt N x) [0..<N]) ! t
        = (\<Sum>k<N. spectrumAt N x k * cis (2 * pi * real k * real t / real N)) / of_nat N"
    using t by (simp add: ifft_nth)
  also have "\<dots> = (if t < length x then complex_of_real (x ! t) else 0)"
    unfolding spectrumAt_def by (rule dft_inversion [OF xN t])
  finally have "ifft (map (spectrumAt N x) [0..<N]) ! t
                = (if t < length x then complex_of_real (x ! t) else 0)" .
  then show ?thesis using t by (simp add: Xest)
qed

text \<open>
  Claim C1, as amended. Without noise, with at least one sample per symbol, a channel
  whose zero-padded transform has modulus at least \<open>epsilon\<close> at every bin (so that the
  floor of the equalizer changes no denominator), and noise draws whose first value
  \<open>u1\<close> is not \<open>0\<close> (it lies in \<open>(0, 1]\<close>, so that the Box-Muller sample is finite),
  the five stages return the input bit string, for every string of the characters \<open>0\<close>
  and \<open>1\<close>.
\<close>

theorem noiseless_round_trip:
  fixes inputBits :: string and samplesPerSymbol :: nat
  defines "N \<equiv> length (generateSignal inputBits samplesPerSymbol)"
  assumes bits: "set inputBits \<subseteq> {CHR ''0'', CHR ''1''}"
      and sps: "0 < samplesPerSymbol"
      and ch: "generateChannel taps = Inr signalH"
      and inv: "\<forall>k < N + length signalH - 1. epsilon \<le>
                  cmod (fft (map complex_of_real (hPadded (N + length signalH - 1) signalH)) ! k)"
      and draws: "\<forall>i < N + length signalH - 1. 0 < fst (draws i) \<and> fst (draws i) \<le> 1"
  shows "recoveryPipeline inputBits samplesPerSymbol taps 0 draws = Inr inputBits"
proof -
  define x where "x = generateSignal inputBits samplesPerSymbol"
  define M where "M = length x + length signalH - 1"
  have lx: "length x = (length inputBits + 2) * samplesPerSymbol"
    unfolding x_def by (rule length_generateSignal)
  have x2: "2 \<le> length x"
  proof -
    have "2 * 1 \<le> (length inputBits + 2) * samplesPerSymbol"
      using sps by (intro mult_le_mono) auto
    then show ?thesis by (simp add: lx)
  qed
  have inv': "\<forall>k<M. epsilon \<le> cmod (fft (map complex_of_real (hPadded M signalH)) ! k)"
    using inv unfolding M_def x_def N_def .
  have h: "0 < length signalH"
  proof (rule ccontr)
    assume "\<not> 0 < length signalH"
    then have e: "signalH = []" by simp
    have M0: "0 < M" using x2 by (simp add: M_def e)
    have "fft (map complex_of_real (hPadded M signalH)) ! 0 = 0"
      using M0 by (simp add: fft_nth e hPadded_def)
    then show False using inv' M0 by (auto simp: epsilon_def)
  qed
  have xpos: "0 < length x" using x2 by linarith
  have xM: "length x \<le> M" using h unfolding M_def by linarith
  have conv: "convolveSignals x signalH 0 draws
              = Inr (map (convolveAt x signalH) [0..<M], map (convolveAt x signalH) [0..<M])"
  proof -
    have "1 \<le> length x + length signalH" using xpos by linarith
    moreover have "\<forall>i < length x + length signalH - 1. 0 < fst (draws i) \<and> fst (draws i) \<le> 1"
      using draws unfolding x_def N_def .
    ultimately show ?thesis unfolding M_def by (rule convolveSignals_noiseless)
  qed
  have M2: "2 \<le> length (map (convolveAt x signalH) [0..<M])"
    using x2 xM by simp
  obtain sp where sp: "performFFT (map (convolveAt x signalH) [0..<M]) signalH = Inr sp"
    unfolding performFFT_Inr [OF M2] by blast
  have lenY: "length (complexY sp) = M" and lenE: "length (complexE sp) = M"
    using sp unfolding performFFT_Inr [OF M2] by auto
  define xr where "xr = map Re (ifft (map (\<lambda>i. complexY sp ! i * complexE sp ! i)
                                   [0..<length (complexY sp)]))"
  have lxr: "length xr = M" by (simp add: xr_def lenY)
  have same: "xr ! t = x ! t" if "t < length x" for t
  proof -
    have tM: "t < M" using that xM by simp
    show ?thesis
      unfolding xr_def
      using recovered_signal [OF xpos h inv' [unfolded M_def] sp [unfolded M_def] tM [unfolded M_def]] that
      by simp
  qed
  have dec: "decodeBits xr (length inputBits) samplesPerSymbol = inputBits"
    using bits sps
  proof (rule decodeBits_exact)
    show "length (generateSignal inputBits samplesPerSymbol) \<le> length xr"
      using xM by (simp add: lxr x_def)
    show "xr ! t = generateSignal inputBits samplesPerSymbol ! t"
      if "t < length (generateSignal inputBits samplesPerSymbol)" for t
      using same [of t] that by (simp add: x_def)
  qed
  have xr': "map Re (ifft (map (\<lambda>i. complexY sp ! i * complexE sp ! i) [0..<M])) = xr"
    by (simp add: xr_def lenY)
  have eq: "performEqualization sp inputBits samplesPerSymbol = Inr (xr, inputBits)"
  proof -
    have "M \<noteq> 0" using x2 xM by linarith
    then show ?thesis
      by (simp add: performEqualization_def Let_def lenY lenE xr' dec)
  qed
  show ?thesis
    unfolding recoveryPipeline_def Let_def x_def [symmetric]
    by (simp add: ch conv sp eq)
qed

lemma spectrum_lower_bound:
  "\<bar>h0\<bar> - sum_list (map abs hs) \<le> cmod (spectrumAt N (h0 # hs) k)"
proof -
  define W where "W a = cis (- (2 * pi * real k * real a / real N))" for a
  define v where "v = (\<Sum>a<length hs. complex_of_real (hs ! a) * W (Suc a))"
  have "spectrumAt N (h0 # hs) k = (\<Sum>a<Suc (length hs). complex_of_real ((h0 # hs) ! a) * W a)"
    by (simp add: spectrumAt_def W_def)
  also have "\<dots> = complex_of_real h0 * W 0 + v"
    unfolding v_def by (subst sum.lessThan_Suc_shift) simp
  finally have s: "spectrumAt N (h0 # hs) k = complex_of_real h0 + v"
    by (simp add: W_def)
  have "cmod v \<le> (\<Sum>a<length hs. cmod (complex_of_real (hs ! a) * W (Suc a)))"
    unfolding v_def by (rule norm_sum)
  also have "\<dots> = (\<Sum>a<length hs. \<bar>hs ! a\<bar>)"
    by (simp add: norm_mult W_def)
  also have "\<dots> = sum_list (map abs hs)"
    by (simp add: sum_list_sum_nth atLeast0LessThan)
  finally have v: "cmod v \<le> sum_list (map abs hs)" .
  have "cmod (complex_of_real h0) - cmod v \<le> cmod (complex_of_real h0 + v)"
    by (rule norm_diff_ineq)
  then show ?thesis using v by (simp add: s)
qed

lemma default_h:
  "generateChannel defaultTaps = Inr [1, 0, 0, 0, 0, 1 / 2, 0, 0, 0, 0, 0, 0, - 3 / 10]"
  by (simp add: generateChannel_def defaultTaps_def addTap_def eval_nat_numeral)

text \<open>The instance of the claim: \<open>10110\<close> through the three default taps, 10 samples
  per symbol.\<close>

theorem noiseless_round_trip_witness:
  "recoveryPipeline ''10110'' 10 defaultTaps 0 (\<lambda>i. (1 / 2, 1 / 4)) = Inr ''10110''"
proof -
  define h :: "real list" where "h = [1, 0, 0, 0, 0, 1 / 2, 0, 0, 0, 0, 0, 0, - 3 / 10]"
  have ch: "generateChannel defaultTaps = Inr h" unfolding h_def by (rule default_h)
  have lh: "length h = 13" by (simp add: h_def)
  have lx: "length (generateSignal ''10110'' 10) = 70" by (simp add: length_generateSignal)
  have inv: "\<forall>k < length (generateSignal ''10110'' 10) + length h - 1. epsilon \<le>
      cmod (fft (map complex_of_real
         (hPadded (length (generateSignal ''10110'' 10) + length h - 1) h)) ! k)"
  proof (intro allI impI)
    fix k assume k: "k < length (generateSignal ''10110'' 10) + length h - 1"
    have le: "length h \<le> length (generateSignal ''10110'' 10) + length h - 1"
      by (simp add: lx lh)
    have "epsilon \<le> \<bar>1\<bar> - sum_list (map abs [0, 0, 0, 0, 1 / 2, 0, 0, 0, 0, 0, 0, - 3 / 10 :: real])"
      by (simp add: epsilon_def)
    also have "\<dots> \<le> cmod (spectrumAt (length (generateSignal ''10110'' 10) + length h - 1) h k)"
      unfolding h_def by (rule spectrum_lower_bound)
    finally show "epsilon \<le> cmod (fft (map complex_of_real
         (hPadded (length (generateSignal ''10110'' 10) + length h - 1) h)) ! k)"
      by (simp only: fft_hPadded [OF le k])
  qed
  have bits: "set ''10110'' \<subseteq> {CHR ''0'', CHR ''1''}" by simp
  have sps: "(0::nat) < 10" by simp
  have draws: "\<forall>i < length (generateSignal ''10110'' 10) + length h - 1.
      0 < fst ((\<lambda>i. (1 / 2, 1 / 4)) i :: real \<times> real)
      \<and> fst ((\<lambda>i. (1 / 2, 1 / 4)) i :: real \<times> real) \<le> 1"
    by simp
  show ?thesis by (rule noiseless_round_trip [OF bits sps ch inv draws])
qed

lemma fft_impulse3: "fft [c, 0, 0] = [c, c, c]"
  by (simp add: fft_def Let_def eval_nat_numeral)

lemma ifft_const3: "ifft [c, c, c] ! 0 = c"
  by (simp add: ifft_def Let_def eval_nat_numeral)

lemma flip_x: "generateSignal ''1'' 1 = [1, 0, 0]"
  by (simp add: generateSignal_def eval_nat_numeral)

lemma flip_h: "generateChannel flipTaps = Inr [- 1 / 2000000]"
  by (simp add: generateChannel_def flipTaps_def addTap_def)

lemma flip_conv:
  "convolveSignals [1, 0, 0] [r] 0 (\<lambda>i. (1 / 2, 0)) = Inr ([r, 0, 0], [r, 0, 0])"
proof -
  have "map (convolveAt [1, 0, 0] [r]) [0..<length [1, 0, 0 :: real] + length [r] - 1] = [r, 0, 0]"
    by (simp add: convolveAt_def eval_nat_numeral)
  then show ?thesis
    using convolveSignals_noiseless [of "[1, 0, 0]" "[r]" "\<lambda>i. (1 / 2, 0)"] by simp
qed

lemma flip_denom: "H_denom (- (1 / 2000000)) = 1 / 2000000"
proof -
  have "cmod (- (1 / 2000000)) = 1 / 2000000"
    by (simp add: norm_divide)
  then show ?thesis
    by (simp add: H_denom_def epsilon_def complex_eq_iff)
qed

lemma flip_sp:
  "performFFT [- (1 / 2000000), 0, 0] [- (1 / 2000000)]
   = Inr \<lparr> complexY = [- (1 / 2000000), - (1 / 2000000), - (1 / 2000000)],
           complexH = [- (1 / 2000000), - (1 / 2000000), - (1 / 2000000)],
           complexE = [2000000, 2000000, 2000000] \<rparr>"
proof -
  have l: "2 \<le> length [- (1 / 2000000), 0, 0 :: real]" by simp
  show ?thesis
    unfolding performFFT_Inr [OF l]
    by (simp add: hPadded_def fft_impulse3 flip_denom eval_nat_numeral)
qed

lemma flip_eq:
  "performEqualization
     \<lparr> complexY = [- (1 / 2000000), - (1 / 2000000), - (1 / 2000000)],
       complexH = [- (1 / 2000000), - (1 / 2000000), - (1 / 2000000)],
       complexE = [2000000, 2000000, 2000000] \<rparr> ''1'' 1
   = Inr (map Re (ifft [- 1, - 1, - 1]), ''0'')"
proof -
  have u: "[0..<length [a, b, c :: complex]] = [0, 1, 2]" for a b c
    by (simp add: eval_nat_numeral)
  have x: "map (\<lambda>i. [- (1 / 2000000), - (1 / 2000000), - (1 / 2000000)] ! i
                      * [2000000, 2000000, 2000000 :: complex] ! i) [0, 1, 2]
           = [- 1, - 1, - 1]"
    by simp
  have d: "decodeBits (map Re (ifft [- 1, - 1, - 1])) (length ''1'') 1 = ''0''"
    using ifft_const3 [of "- 1"] by (simp add: decodeBits_def)
  show ?thesis
    unfolding performEqualization_def Let_def spectra.simps u x d by simp
qed

text \<open>
  Claim C1 as stated fails. The single tap \<open>(0, -5e-7)\<close> gives a channel whose transform
  is \<open>-5e-7\<close> at every bin: no bin is zero, yet every modulus is below \<open>epsilon\<close>, the
  floor turns each denominator into \<open>+5e-7\<close>, the recovered signal is the negated input
  and the bit \<open>1\<close> is decoded as \<open>0\<close>.
\<close>

theorem round_trip_counterexample:
  "recoveryPipeline ''1'' 1 flipTaps 0 (\<lambda>i. (1 / 2, 0)) = Inr ''0''
   \<and> generateChannel flipTaps = Inr [- 1 / 2000000]
   \<and> fft (map complex_of_real (hPadded 3 [- 1 / 2000000]))
       = [- (1 / 2000000), - (1 / 2000000), - (1 / 2000000)]"
proof -
  have p: "recoveryPipeline ''1'' 1 flipTaps 0 (\<lambda>i. (1 / 2, 0)) = Inr ''0''"
    unfolding recoveryPipeline_def Let_def flip_x flip_h
    by (simp add: flip_conv flip_sp flip_eq [unfolded One_nat_def])
  have f: "fft (map complex_of_real (hPadded 3 [- 1 / 2000000]))
       = [- (1 / 2000000), - (1 / 2000000), - (1 / 2000000)]"
    by (simp add: hPadded_def fft_impulse3 eval_nat_numeral)
  show ?thesis using p f flip_h by simp
qed

text \<open>A draw \<open>u1 = 0\<close> ends the run at the convolution stage, also without noise: the
  sample is infinite and its product with the variance \<open>0\<close> is NaN.\<close>

lemma zero_draw_not_finite:
  "recoveryPipeline ''1'' 1 [\<lparr> tap_delay = 0, tap_amp = 1 \<rparr>] 0 (\<lambda>i. (0, 0)) = Inl NotFinite"
  by (simp add: recoveryPipeline_def generateChannel_def addTap_def convolveSignals_def
      boxMuller_def Let_def flip_x [unfolded One_nat_def] eval_nat_numeral)
end
